theory Spec2Isabelle
  imports Main "HOL-Library.Word"
begin

section \<open>The data of threads/synch.c\<close>

text \<open>
  Threads, locks, the semaphore elements of condition variables and the condition
  variables themselves are C objects that the code reaches through pointers. The model
  names each object by a number (its address) and keeps the objects in tables, so that
  two references to the same object see the same updates.
\<close>

type_synonym tid = nat
type_synonym lid = nat
type_synonym wid = nat
type_synonym cid = nat

datatype thread_status = THREAD_RUNNING | THREAD_READY | THREAD_BLOCKED | THREAD_DYING

text \<open>
  The fields of \<^verbatim>\<open>struct thread\<close> that synch.c reads and writes. The struct itself is declared
  in threads/thread.h, which is not among the sources.
\<close>

record thread =
  status :: thread_status
  priority :: int
  priority_original :: int
  is_donated :: bool
  waiting_for_lock :: "lid option"
  locks :: "lid list"

text \<open>\<^verbatim>\<open>struct semaphore\<close>: the counter is an \<^verbatim>\<open>unsigned\<close> (32 bits), as \<open>sema_init\<close> takes it.\<close>

record semaphore =
  sema_value :: "32 word"
  waiters :: "tid list"

record lock =
  holder :: "tid option"
  semaphore :: semaphore
  priority_lock :: int

record semaphore_elem =
  elem_semaphore :: semaphore
  highest_priority :: int

record condition =
  cond_waiters :: "wid list"

type_synonym thread_tab = "tid \<Rightarrow> thread"

record kernel =
  threads :: thread_tab
  lock_tab :: "lid \<Rightarrow> lock"
  elem_tab :: "wid \<Rightarrow> semaphore_elem"
  cond_tab :: "cid \<Rightarrow> condition"
  cur :: tid
  intr_context :: bool
  thread_mlfqs :: bool

text \<open>
  A failed \<^verbatim>\<open>ASSERT\<close> panics the kernel. \<open>list_remove\<close> on an element that is linked into no
  list follows stale pointers; the model stops there with \<open>NOT_IN_LIST\<close>.
\<close>

datatype error = ASSERT_FAILED | NOT_IN_LIST

text \<open>
  \<open>thread_block\<close> takes the processor from the caller in the middle of an operation. An
  operation that can sleep yields \<open>Blocked\<close> with the state at the suspension, or
  \<open>Returned\<close> with the state at its end.
\<close>

datatype 'a susp = Returned 'a | Blocked 'a

text \<open>The state inside such a result.\<close>

fun susp_state :: "'a susp \<Rightarrow> 'a" where
  "susp_state (Returned a) = a"
| "susp_state (Blocked a) = a"

section \<open>Collaborators from thread.c and lib/kernel/list.c\<close>

text \<open>
  Modelled from the spec: \<open>list_insert_ordered\<close> of lib/kernel/list.c, which is not among
  the sources ("insert-maintaining-order-by-comparator"): the element goes in front of the
  first element that the comparator puts it before, and to the back when there is none.
\<close>

fun list_insert_ordered :: "'a list \<Rightarrow> 'a \<Rightarrow> ('a \<Rightarrow> 'a \<Rightarrow> bool) \<Rightarrow> 'a list" where
  "list_insert_ordered [] x lessf = [x]"
| "list_insert_ordered (e # es) x lessf =
     (if lessf x e then x # e # es else e # list_insert_ordered es x lessf)"

text \<open>
  Modelled from the spec: \<open>thread_block\<close> of thread.c ("suspend the calling thread until
  explicitly resumed"). The choice of the next thread to run is the scheduler's.
\<close>

definition thread_block :: "tid \<Rightarrow> thread_tab \<Rightarrow> thread_tab" where
  "thread_block c ths = ths(c := (ths c)\<lparr>status := THREAD_BLOCKED\<rparr>)"

text \<open>Modelled from the spec: \<open>thread_unblock\<close> of thread.c ("mark a thread ready").\<close>

definition thread_unblock :: "tid \<Rightarrow> thread_tab \<Rightarrow> thread_tab" where
  "thread_unblock t ths = ths(t := (ths t)\<lparr>status := THREAD_READY\<rparr>)"

text \<open>
  Modelled from the spec: \<open>thread_given_set_priority\<close> of thread.c, the "donation-aware
  variant that also marks the thread boosted": it sets the effective priority of the given
  thread and, when its flag is set, the thread's donated flag.
\<close>

definition thread_given_set_priority :: "tid \<Rightarrow> int \<Rightarrow> bool \<Rightarrow> thread_tab \<Rightarrow> thread_tab" where
  "thread_given_set_priority t p d ths =
     ths(t := (ths t)\<lparr>priority := p, is_donated := (d \<or> is_donated (ths t))\<rparr>)"

text \<open>
  Modelled from the spec: \<open>thread_set_priority\<close> of thread.c ("set_priority(thread, value)"),
  which sets the effective priority of the running thread.
\<close>

definition thread_set_priority :: "tid \<Rightarrow> int \<Rightarrow> thread_tab \<Rightarrow> thread_tab" where
  "thread_set_priority c p ths = ths(c := (ths c)\<lparr>priority := p\<rparr>)"

section \<open>The comparators\<close>

text \<open>
  \<open>priority_semaphore_compare\<close> compares the \<^verbatim>\<open>highest_priority\<close> words of the two records
  its arguments are read as.
\<close>

definition priority_semaphore_compare :: "int \<Rightarrow> int \<Rightarrow> bool" where
  "priority_semaphore_compare hp1 hp2 = (hp1 > hp2)"

text \<open>
  \<open>lock_priority_compare\<close> takes for each lock the priority of the first thread waiting on
  its semaphore, or -1 when nobody waits.
\<close>

definition lock_highest_priority :: "kernel \<Rightarrow> lid \<Rightarrow> int" where
  "lock_highest_priority k l =
     (case waiters (semaphore (lock_tab k l)) of
        [] \<Rightarrow> - 1
      | t # _ \<Rightarrow> priority (threads k t))"

definition lock_priority_compare :: "kernel \<Rightarrow> lid \<Rightarrow> lid \<Rightarrow> bool" where
  "lock_priority_compare k l1 l2 = (lock_highest_priority k l1 \<ge> lock_highest_priority k l2)"

section \<open>Semaphores\<close>

text \<open>
  The operations on semaphores and locks run with interrupts disabled, so a thread runs
  them without interruption up to a call of \<open>thread_block\<close> or \<open>thread_yield\<close>, where
  other threads run. Each function below is such a part of an operation: it takes the state
  at its start to the state at its end, or at the suspension. The queue of a condition
  variable is only touched by the thread that holds the lock.
\<close>

definition sema_init :: "32 word \<Rightarrow> semaphore" where
  "sema_init v = \<lparr>sema_value = v, waiters = []\<rparr>"

text \<open>
  \<open>sema_down\<close> hands the list element of the calling thread to
  \<open>priority_semaphore_compare\<close>, which reads a list element as the \<^verbatim>\<open>elem\<close> of a
  \<^verbatim>\<open>struct semaphore_elem\<close> and takes the \<^verbatim>\<open>int\<close> that lies at the place of
  \<^verbatim>\<open>highest_priority\<close>. Which word of a thread that is depends on the declaration of
  \<^verbatim>\<open>struct thread\<close>; the functions that queue threads take it as the parameter \<open>hp\<close>,
  and \<open>hp = priority\<close> is the case in which the comparator reads the thread's priority.

  \<open>sema_down_loop\<close> is the loop of \<open>sema_down\<close> from its test to the next suspension or
  to the decrement. A thread that \<open>sema_up\<close> has woken runs the loop again from its test.
\<close>

definition sema_down_loop ::
  "(thread \<Rightarrow> int) \<Rightarrow> tid \<Rightarrow> thread_tab \<Rightarrow> semaphore \<Rightarrow> (thread_tab \<times> semaphore) susp" where
  "sema_down_loop hp c ths s =
     (if sema_value s = 0
      then Blocked (thread_block c ths,
             s\<lparr>waiters := list_insert_ordered (waiters s) c
                  (\<lambda>a b. priority_semaphore_compare (hp (ths a)) (hp (ths b)))\<rparr>)
      else Returned (ths, s\<lparr>sema_value := sema_value s - 1\<rparr>))"

definition sema_down ::
  "(thread \<Rightarrow> int) \<Rightarrow> bool \<Rightarrow> tid \<Rightarrow> thread_tab \<Rightarrow> semaphore \<Rightarrow>
     error + (thread_tab \<times> semaphore) susp" where
  "sema_down hp ic c ths s = (if ic then Inl ASSERT_FAILED else Inr (sema_down_loop hp c ths s))"

definition sema_try_down :: "semaphore \<Rightarrow> bool \<times> semaphore" where
  "sema_try_down s =
     (if sema_value s > 0 then (True, s\<lparr>sema_value := sema_value s - 1\<rparr>) else (False, s))"

text \<open>
  The first loop of \<open>sema_up\<close>: pop the back of the queue and unblock it, until the queue is
  empty; \<open>waiting_thread\<close> is the thread popped last.
\<close>

function sema_up_drain :: "thread_tab \<Rightarrow> tid list \<Rightarrow> tid option \<Rightarrow> thread_tab \<times> tid list \<times> tid option" where
  "sema_up_drain ths ws waiting_thread =
     (if ws = [] then (ths, ws, waiting_thread)
      else sema_up_drain (thread_unblock (last ws) ths) (butlast ws) (Some (last ws)))"
  by pat_completeness auto
termination
  by (relation "measure (\<lambda>(ths, ws, wt). length ws)") auto

text \<open>
  \<open>sema_up\<close> returns the new thread table and semaphore, and whether it called
  \<open>thread_yield\<close>. The caller \<open>c\<close> is \<open>thread_current ()\<close>.
\<close>

definition sema_up :: "tid \<Rightarrow> thread_tab \<Rightarrow> semaphore \<Rightarrow> thread_tab \<times> semaphore \<times> bool" where
  "sema_up c ths s =
     (case sema_up_drain ths (waiters s) None of
        (ths', ws', waiting_thread) \<Rightarrow>
          (ths',
           s\<lparr>waiters := ws', sema_value := sema_value s + 1\<rparr>,
           (case waiting_thread of
              None \<Rightarrow> False
            | Some w \<Rightarrow> priority (ths' w) > priority (ths' c) \<and> status (ths' w) = THREAD_READY)))"

section \<open>Locks\<close>

text \<open>
  \<^verbatim>\<open>PRIORITY_FAKE\<close> and \<^verbatim>\<open>LOCK_LEVEL\<close> are macros of threads/synch.h, which is not among the
  sources; the functions that use them take them as parameters.
\<close>

definition lock_held_by_current_thread :: "lid \<Rightarrow> kernel \<Rightarrow> bool" where
  "lock_held_by_current_thread l k = (holder (lock_tab k l) = Some (cur k))"

definition lock_init :: "int \<Rightarrow> lid \<Rightarrow> kernel \<Rightarrow> kernel" where
  "lock_init PRIORITY_FAKE l k =
     k\<lparr>lock_tab := (lock_tab k)
          (l := \<lparr>holder = None, semaphore = sema_init 1, priority_lock = PRIORITY_FAKE\<rparr>)\<rparr>"

text \<open>
  The donation loop of \<open>lock_acquire\<close>, with its variables \<open>lock_holder\<close>, \<open>lock_next\<close> and
  \<open>lock_iter\<close>. \<open>lock_acquire_give\<close> is the first two statements of its body: the donation
  to the holder and the update of \<open>priority_lock\<close> of the lock the walk is at.
\<close>

definition lock_acquire_give :: "tid \<Rightarrow> lid \<Rightarrow> kernel \<Rightarrow> kernel" where
  "lock_acquire_give h lock_next k =
     (let k1 = k\<lparr>threads :=
                 thread_given_set_priority h (priority (threads k (cur k))) True (threads k)\<rparr>
      in if priority_lock (lock_tab k1 lock_next) < priority (threads k1 (cur k1))
         then k1\<lparr>lock_tab := (lock_tab k1)
                (lock_next := (lock_tab k1 lock_next)
                   \<lparr>priority_lock := priority (threads k1 (cur k1))\<rparr>)\<rparr>
         else k1)"

function lock_acquire_donate :: "nat \<Rightarrow> tid option \<Rightarrow> lid \<Rightarrow> nat \<Rightarrow> kernel \<Rightarrow> kernel" where
  "lock_acquire_donate LOCK_LEVEL lock_holder lock_next lock_iter k =
     (case lock_holder of
        None \<Rightarrow> k
      | Some h \<Rightarrow>
          if \<not> thread_mlfqs k \<and> priority (threads k h) < priority (threads k (cur k)) then
            let k2 = lock_acquire_give h lock_next k
            in (case waiting_for_lock (threads k2 h) of
                  None \<Rightarrow> k2
                | Some l' \<Rightarrow>
                    if lock_iter < LOCK_LEVEL
                    then lock_acquire_donate LOCK_LEVEL (holder (lock_tab k2 l')) l' (lock_iter + 1) k2
                    else k2)
          else k)"
  by pat_completeness auto
termination
  by (relation "measure (\<lambda>(LL, h, l, i, k). LL - i)") auto

text \<open>\<open>lock_acquire\<close> from its entry to the call of \<open>sema_down\<close>.\<close>

definition lock_acquire_enter :: "nat \<Rightarrow> lid \<Rightarrow> kernel \<Rightarrow> error + kernel" where
  "lock_acquire_enter LOCK_LEVEL l k =
     (if intr_context k \<or> lock_held_by_current_thread l k then Inl ASSERT_FAILED
      else
        let k1 = (if holder (lock_tab k l) \<noteq> None \<and> \<not> thread_mlfqs k
                  then k\<lparr>threads := (threads k)
                         (cur k := (threads k (cur k))\<lparr>waiting_for_lock := Some l\<rparr>)\<rparr>
                  else k)
        in Inr (lock_acquire_donate LOCK_LEVEL (holder (lock_tab k l)) l 0 k1))"

text \<open>\<open>lock_acquire\<close> after \<open>sema_down\<close> has returned.\<close>

definition lock_acquire_finish :: "lid \<Rightarrow> kernel \<Rightarrow> kernel" where
  "lock_acquire_finish l k =
     (let k1 = k\<lparr>lock_tab := (lock_tab k)(l := (lock_tab k l)\<lparr>holder := Some (cur k)\<rparr>)\<rparr>
      in if \<not> thread_mlfqs k1 then
           let h = cur k1;
               k2 = k1\<lparr>threads := (threads k1)(h := (threads k1 h)\<lparr>waiting_for_lock := None\<rparr>)\<rparr>
           in k2\<lparr>threads := (threads k2)
                  (h := (threads k2 h)
                     \<lparr>locks := list_insert_ordered (locks (threads k2 h)) l (lock_priority_compare k2)\<rparr>)\<rparr>
         else k1)"

text \<open>
  The \<open>sema_down\<close> of \<open>lock_acquire\<close> and what follows it: the caller is suspended in the
  loop of \<open>sema_down\<close>, or it passes the loop and becomes the holder. A woken caller
  resumes here.
\<close>

definition lock_acquire_down :: "(thread \<Rightarrow> int) \<Rightarrow> lid \<Rightarrow> kernel \<Rightarrow> kernel susp" where
  "lock_acquire_down hp l k =
     (case sema_down_loop hp (cur k) (threads k) (semaphore (lock_tab k l)) of
        Blocked (ths, s) \<Rightarrow>
          Blocked (k\<lparr>threads := ths, lock_tab := (lock_tab k)(l := (lock_tab k l)\<lparr>semaphore := s\<rparr>)\<rparr>)
      | Returned (ths, s) \<Rightarrow>
          Returned (lock_acquire_finish l
            (k\<lparr>threads := ths, lock_tab := (lock_tab k)(l := (lock_tab k l)\<lparr>semaphore := s\<rparr>)\<rparr>)))"

definition lock_acquire :: "(thread \<Rightarrow> int) \<Rightarrow> nat \<Rightarrow> lid \<Rightarrow> kernel \<Rightarrow> error + kernel susp" where
  "lock_acquire hp LOCK_LEVEL l k =
     (case lock_acquire_enter LOCK_LEVEL l k of
        Inl e \<Rightarrow> Inl e
      | Inr k1 \<Rightarrow> Inr (lock_acquire_down hp l k1))"

definition lock_try_acquire :: "lid \<Rightarrow> kernel \<Rightarrow> error + bool \<times> kernel" where
  "lock_try_acquire l k =
     (if lock_held_by_current_thread l k then Inl ASSERT_FAILED
      else
        case sema_try_down (semaphore (lock_tab k l)) of
          (success, s) \<Rightarrow>
            let k1 = k\<lparr>lock_tab := (lock_tab k)(l := (lock_tab k l)\<lparr>semaphore := s\<rparr>)\<rparr>
            in if success
               then Inr (True, k1\<lparr>lock_tab := (lock_tab k1)(l := (lock_tab k1 l)\<lparr>holder := Some (cur k1)\<rparr>)\<rparr>)
               else Inr (False, k1))"

text \<open>
  \<open>lock_release\<close> up to the end of its \<open>sema_up\<close>, with whether \<open>sema_up\<close> called
  \<open>thread_yield\<close>.
\<close>

definition lock_release_up :: "lid \<Rightarrow> kernel \<Rightarrow> error + kernel \<times> bool" where
  "lock_release_up l k =
     (if \<not> lock_held_by_current_thread l k then Inl ASSERT_FAILED
      else
        let k1 = k\<lparr>lock_tab := (lock_tab k)(l := (lock_tab k l)\<lparr>holder := None\<rparr>)\<rparr>
        in case sema_up (cur k1) (threads k1) (semaphore (lock_tab k1 l)) of
             (ths, s, yielded) \<Rightarrow>
               Inr (k1\<lparr>threads := ths,
                       lock_tab := (lock_tab k1)(l := (lock_tab k1 l)\<lparr>semaphore := s\<rparr>)\<rparr>,
                    yielded))"

text \<open>
  \<open>lock_release\<close> after its \<open>sema_up\<close>; \<open>curr0\<close> is its variable \<^verbatim>\<open>curr\<close>, the caller, read at the entry of
  \<open>lock_release\<close>.
\<close>

definition lock_release_rest :: "int \<Rightarrow> tid \<Rightarrow> lid \<Rightarrow> kernel \<Rightarrow> error + kernel" where
  "lock_release_rest PRIORITY_FAKE curr0 l k =
     (if thread_mlfqs k then Inr k
      else if l \<notin> set (locks (threads k curr0)) then Inl NOT_IN_LIST
      else
        let k1 = k\<lparr>threads := (threads k)
                    (curr0 := (threads k curr0)\<lparr>locks := remove1 l (locks (threads k curr0))\<rparr>)\<rparr>;
            k2 = k1\<lparr>lock_tab := (lock_tab k1)(l := (lock_tab k1 l)\<lparr>priority_lock := PRIORITY_FAKE\<rparr>)\<rparr>
        in case locks (threads k2 curr0) of
             [] \<Rightarrow>
               let k3 = k2\<lparr>threads := (threads k2)(curr0 := (threads k2 curr0)\<lparr>is_donated := False\<rparr>)\<rparr>
               in Inr (k3\<lparr>threads :=
                         thread_set_priority (cur k3) (priority_original (threads k3 curr0)) (threads k3)\<rparr>)
           | lock_first # _ \<Rightarrow>
               if priority_lock (lock_tab k2 lock_first) \<noteq> PRIORITY_FAKE
               then Inr (k2\<lparr>threads :=
                           thread_given_set_priority curr0 (priority_lock (lock_tab k2 lock_first)) True
                             (threads k2)\<rparr>)
               else Inr (k2\<lparr>threads :=
                           thread_set_priority (cur k2) (priority_original (threads k2 curr0)) (threads k2)\<rparr>))"

text \<open>
  \<open>lock_release\<close> as one step: no other thread runs between its two parts. (When
  \<open>sema_up\<close> yields, other threads run before \<open>lock_release_rest\<close>.)
\<close>

definition lock_release :: "int \<Rightarrow> lid \<Rightarrow> kernel \<Rightarrow> error + kernel \<times> bool" where
  "lock_release PRIORITY_FAKE l k =
     (case lock_release_up l k of
        Inl e \<Rightarrow> Inl e
      | Inr (k1, yielded) \<Rightarrow>
          (case lock_release_rest PRIORITY_FAKE (cur k) l k1 of
             Inl e \<Rightarrow> Inl e
           | Inr k2 \<Rightarrow> Inr (k2, yielded)))"

section \<open>Condition variables\<close>

definition cond_init :: "cid \<Rightarrow> kernel \<Rightarrow> kernel" where
  "cond_init c k = k\<lparr>cond_tab := (cond_tab k)(c := \<lparr>cond_waiters = []\<rparr>)\<rparr>"

text \<open>
  \<open>cond_wait\<close> from its entry to the call of \<open>lock_release\<close>; \<open>w\<close> is the address of its
  local variable \<^verbatim>\<open>waiter\<close>.
\<close>

definition cond_wait_enqueue :: "cid \<Rightarrow> lid \<Rightarrow> wid \<Rightarrow> kernel \<Rightarrow> error + kernel" where
  "cond_wait_enqueue c l w k =
     (if intr_context k \<or> \<not> lock_held_by_current_thread l k then Inl ASSERT_FAILED
      else
        let k1 = k\<lparr>elem_tab := (elem_tab k)
                    (w := \<lparr>elem_semaphore = sema_init 0,
                           highest_priority = priority (threads k (cur k))\<rparr>)\<rparr>
        in Inr (k1\<lparr>cond_tab := (cond_tab k1)
                   (c := (cond_tab k1 c)
                      \<lparr>cond_waiters := list_insert_ordered (cond_waiters (cond_tab k1 c)) w
                         (\<lambda>a b. priority_semaphore_compare
                            (highest_priority (elem_tab k1 a)) (highest_priority (elem_tab k1 b)))\<rparr>)\<rparr>))"

text \<open>The \<open>sema_down\<close> of \<open>cond_wait\<close> on the semaphore of \<^verbatim>\<open>waiter\<close>.\<close>

definition cond_wait_sleep :: "(thread \<Rightarrow> int) \<Rightarrow> wid \<Rightarrow> kernel \<Rightarrow> kernel susp" where
  "cond_wait_sleep hp w k =
     (case sema_down_loop hp (cur k) (threads k) (elem_semaphore (elem_tab k w)) of
        Blocked (ths, s) \<Rightarrow>
          Blocked (k\<lparr>threads := ths, elem_tab := (elem_tab k)(w := (elem_tab k w)\<lparr>elem_semaphore := s\<rparr>)\<rparr>)
      | Returned (ths, s) \<Rightarrow>
          Returned (k\<lparr>threads := ths, elem_tab := (elem_tab k)(w := (elem_tab k w)\<lparr>elem_semaphore := s\<rparr>)\<rparr>))"

text \<open>\<open>cond_wait\<close> up to its first suspension, when no other thread runs before it.\<close>

definition cond_wait ::
  "(thread \<Rightarrow> int) \<Rightarrow> int \<Rightarrow> nat \<Rightarrow> cid \<Rightarrow> lid \<Rightarrow> wid \<Rightarrow> kernel \<Rightarrow> error + kernel susp" where
  "cond_wait hp PRIORITY_FAKE LOCK_LEVEL c l w k =
     (case cond_wait_enqueue c l w k of
        Inl e \<Rightarrow> Inl e
      | Inr k1 \<Rightarrow>
          (case lock_release PRIORITY_FAKE l k1 of
             Inl e \<Rightarrow> Inl e
           | Inr (k2, yielded) \<Rightarrow>
               (case cond_wait_sleep hp w k2 of
                  Blocked k3 \<Rightarrow> Inr (Blocked k3)
                | Returned k3 \<Rightarrow> lock_acquire hp LOCK_LEVEL l k3)))"

definition cond_signal :: "cid \<Rightarrow> lid \<Rightarrow> kernel \<Rightarrow> error + kernel \<times> bool" where
  "cond_signal c l k =
     (if intr_context k \<or> \<not> lock_held_by_current_thread l k then Inl ASSERT_FAILED
      else
        case cond_waiters (cond_tab k c) of
          [] \<Rightarrow> Inr (k, False)
        | w # ws \<Rightarrow>
            let k1 = k\<lparr>cond_tab := (cond_tab k)(c := (cond_tab k c)\<lparr>cond_waiters := ws\<rparr>)\<rparr>
            in case sema_up (cur k1) (threads k1) (elem_semaphore (elem_tab k1 w)) of
                 (ths, s, yielded) \<Rightarrow>
                   Inr (k1\<lparr>threads := ths,
                           elem_tab := (elem_tab k1)(w := (elem_tab k1 w)\<lparr>elem_semaphore := s\<rparr>)\<rparr>,
                        yielded))"

section \<open>Runs of one semaphore\<close>

text \<open>
  The operations threads perform on one semaphore, in the order in which their
  uninterruptible parts run. \<open>Down t\<close> is thread \<open>t\<close> going through the loop of
  \<open>sema_down\<close> once, at its call or after a wake-up: it either blocks again or decrements
  the counter, which completes its \<open>sema_down\<close>. The run counts the completed operations.
\<close>

datatype sema_op = Down tid | Try_down | Up tid

record sema_run =
  run_threads :: thread_tab
  run_sema :: semaphore
  completed_ups :: nat
  completed_downs :: nat

fun sema_step :: "(thread \<Rightarrow> int) \<Rightarrow> sema_op \<Rightarrow> sema_run \<Rightarrow> sema_run" where
  "sema_step hp (Down t) r =
     (case sema_down_loop hp t (run_threads r) (run_sema r) of
        Blocked (ths, s) \<Rightarrow> r\<lparr>run_threads := ths, run_sema := s\<rparr>
      | Returned (ths, s) \<Rightarrow>
          r\<lparr>run_threads := ths, run_sema := s, completed_downs := completed_downs r + 1\<rparr>)"
| "sema_step hp Try_down r =
     (case sema_try_down (run_sema r) of
        (success, s) \<Rightarrow>
          if success then r\<lparr>run_sema := s, completed_downs := completed_downs r + 1\<rparr>
          else r\<lparr>run_sema := s\<rparr>)"
| "sema_step hp (Up t) r =
     (case sema_up t (run_threads r) (run_sema r) of
        (ths, s, yielded) \<Rightarrow>
          r\<lparr>run_threads := ths, run_sema := s, completed_ups := completed_ups r + 1\<rparr>)"

fun sema_steps :: "(thread \<Rightarrow> int) \<Rightarrow> sema_op list \<Rightarrow> sema_run \<Rightarrow> sema_run" where
  "sema_steps hp [] r = r"
| "sema_steps hp (x # xs) r = sema_steps hp xs (sema_step hp x r)"

definition sema_start :: "32 word \<Rightarrow> thread_tab \<Rightarrow> sema_run" where
  "sema_start v ths =
     \<lparr>run_threads = ths, run_sema = sema_init v, completed_ups = 0, completed_downs = 0\<rparr>"

section \<open>The retries after sema_up\<close>





section \<open>Predicates of the properties\<close>

text \<open>
  The first \<open>n\<close> threads of the ownership chain that starts at the thread \<open>h\<close>: each next
  thread is the holder of the lock the thread before it waits for.
\<close>

fun holder_chain :: "kernel \<Rightarrow> tid option \<Rightarrow> nat \<Rightarrow> tid list" where
  "holder_chain k None n = []"
| "holder_chain k (Some h) 0 = []"
| "holder_chain k (Some h) (Suc n) =
     h # holder_chain k
           (case waiting_for_lock (threads k h) of
              None \<Rightarrow> None
            | Some l \<Rightarrow> holder (lock_tab k l)) n"

text \<open>
  The invariant of the locks \<open>L\<close> that have been initialised: a thread's list of held
  locks has no lock twice and only locks of \<open>L\<close>; a lock of \<open>L\<close> is in a thread's list
  exactly when that thread is its holder; and the lock's semaphore is 1 when the lock is
  free and 0 when it is held.
\<close>

definition lock_inv :: "lid set \<Rightarrow> kernel \<Rightarrow> bool" where
  "lock_inv L k \<longleftrightarrow>
     (\<forall>t. set (locks (threads k t)) \<subseteq> L \<and> distinct (locks (threads k t))) \<and>
     (\<forall>l\<in>L. \<forall>t. (l \<in> set (locks (threads k t))) = (holder (lock_tab k l) = Some t)) \<and>
     (\<forall>l\<in>L. sema_value (semaphore (lock_tab k l)) = (if holder (lock_tab k l) = None then 1 else 0))"

text \<open>
  The wait-records of a condition variable are in descending order of their
  \<^verbatim>\<open>highest_priority\<close>, and no record is queued twice.
\<close>

definition cond_sorted :: "cid \<Rightarrow> kernel \<Rightarrow> bool" where
  "cond_sorted c k \<longleftrightarrow>
     sorted_wrt (\<lambda>a b. a \<ge> b) (map (\<lambda>w. highest_priority (elem_tab k w)) (cond_waiters (cond_tab k c))) \<and>
     distinct (cond_waiters (cond_tab k c))"

text \<open>
  The counter of a run against the operations completed since \<open>sema_init v\<close>: modulo
  \<open>2 ^ 32\<close>, and exactly.
\<close>

definition sema_count :: "32 word \<Rightarrow> sema_run \<Rightarrow> bool" where
  "sema_count v r \<longleftrightarrow>
     uint (sema_value (run_sema r)) =
       (uint v + int (completed_ups r) - int (completed_downs r)) mod 2 ^ 32"

definition sema_exact :: "32 word \<Rightarrow> sema_run \<Rightarrow> bool" where
  "sema_exact v r \<longleftrightarrow>
     uint (sema_value (run_sema r)) = uint v + int (completed_ups r) - int (completed_downs r)"

section \<open>States for the examples\<close>

text \<open>A thread with priority \<open>p\<close> that holds and awaits nothing.\<close>

definition new_thread :: "int \<Rightarrow> thread" where
  "new_thread p =
     \<lparr>status = THREAD_READY, priority = p, priority_original = p, is_donated = False,
      waiting_for_lock = None, locks = []\<rparr>"

text \<open>A kernel in donation mode in which thread 0 runs and no lock has been initialised.\<close>

definition boot :: kernel where
  "boot =
     \<lparr>threads = (\<lambda>t. new_thread 31),
      lock_tab = (\<lambda>l. \<lparr>holder = None, semaphore = sema_init 0, priority_lock = 0\<rparr>),
      elem_tab = (\<lambda>w. \<lparr>elem_semaphore = sema_init 0, highest_priority = 0\<rparr>),
      cond_tab = (\<lambda>c. \<lparr>cond_waiters = []\<rparr>),
      cur = 0, intr_context = False, thread_mlfqs = False\<rparr>"

text \<open>
  A run in which a queued thread receives a donation, with a comparator that reads the
  thread's priority (\<open>hp = priority\<close>). Threads 1 to 4 have the priorities 5, 3, 10 and 7.
  Thread 1 blocks on a semaphore (\<open>wake_s1\<close>); thread 2 acquires lock 1 (\<open>wake_k2\<close>) and
  blocks on the same semaphore (\<open>wake_s2\<close>); thread 3 calls \<open>lock_acquire\<close> on lock 1,
  donates its priority to thread 2 and blocks (\<open>wake_k3\<close>).
\<close>

definition wake_k1 :: kernel where
  "wake_k1 =
     lock_init (- 1) 1
       (boot\<lparr>threads := (threads boot)
          (1 := new_thread 5, 2 := new_thread 3, 3 := new_thread 10, 4 := new_thread 7)\<rparr>)"

definition wake_s1 :: "thread_tab \<times> semaphore" where
  "wake_s1 = susp_state (sema_down_loop priority 1 (threads wake_k1) (sema_init 0))"

definition wake_k2 :: kernel where
  "wake_k2 = susp_state (projr (lock_acquire priority 8 1 (wake_k1\<lparr>threads := fst wake_s1, cur := 2\<rparr>)))"

definition wake_s2 :: "thread_tab \<times> semaphore" where
  "wake_s2 = susp_state (sema_down_loop priority 2 (threads wake_k2) (snd wake_s1))"

definition wake_k3 :: kernel where
  "wake_k3 = susp_state (projr (lock_acquire priority 8 1 (wake_k2\<lparr>threads := fst wake_s2, cur := 3\<rparr>)))"

text \<open>
  A run in which two queued threads receive donations, with a comparator that reads the
  thread's priority. Threads 1 to 6 have the priorities 5, 3, 10, 7, 20 and 1. Thread 1
  acquires lock 1 (\<open>queue_k2\<close>) and thread 2 acquires lock 2 (\<open>queue_k3\<close>); thread 1 and
  then thread 2 block on a semaphore (\<open>queue_s1\<close>, \<open>queue_s2\<close>); thread 3 calls
  \<open>lock_acquire\<close> on lock 1 and donates to thread 1 (\<open>queue_k4\<close>); thread 4 blocks on the
  semaphore (\<open>queue_s3\<close>); thread 5 calls \<open>lock_acquire\<close> on lock 2 and donates to
  thread 2 (\<open>queue_k5\<close>); thread 6 blocks on the semaphore (\<open>queue_s4\<close>).
\<close>

definition queue_k1 :: kernel where
  "queue_k1 =
     lock_init (- 1) 2 (lock_init (- 1) 1
       (boot\<lparr>threads := (threads boot)
          (1 := new_thread 5, 2 := new_thread 3, 3 := new_thread 10, 4 := new_thread 7,
           5 := new_thread 20, 6 := new_thread 1)\<rparr>))"

definition queue_k2 :: kernel where
  "queue_k2 = susp_state (projr (lock_acquire priority 8 1 (queue_k1\<lparr>cur := 1\<rparr>)))"

definition queue_k3 :: kernel where
  "queue_k3 = susp_state (projr (lock_acquire priority 8 2 (queue_k2\<lparr>cur := 2\<rparr>)))"

definition queue_s1 :: "thread_tab \<times> semaphore" where
  "queue_s1 = susp_state (sema_down_loop priority 1 (threads queue_k3) (sema_init 0))"

definition queue_s2 :: "thread_tab \<times> semaphore" where
  "queue_s2 = susp_state (sema_down_loop priority 2 (fst queue_s1) (snd queue_s1))"

definition queue_k4 :: kernel where
  "queue_k4 =
     susp_state (projr (lock_acquire priority 8 1 (queue_k3\<lparr>threads := fst queue_s2, cur := 3\<rparr>)))"

definition queue_s3 :: "thread_tab \<times> semaphore" where
  "queue_s3 = susp_state (sema_down_loop priority 4 (threads queue_k4) (snd queue_s2))"

definition queue_k5 :: kernel where
  "queue_k5 =
     susp_state (projr (lock_acquire priority 8 2 (queue_k4\<lparr>threads := fst queue_s3, cur := 5\<rparr>)))"

definition queue_s4 :: "thread_tab \<times> semaphore" where
  "queue_s4 = susp_state (sema_down_loop priority 6 (threads queue_k5) (snd queue_s3))"



text \<open>
  A run in which a thread holds three locks. Threads 1, 2 and 3 have the priorities 10,
  30 and 50. Thread 1 acquires the locks 1, 2 and 3 in this order (\<open>held_k1\<close>); thread 2
  calls \<open>lock_acquire\<close> on lock 2 and blocks (\<open>held_k2\<close>); thread 3 calls
  \<open>lock_acquire\<close> on lock 1 and blocks (\<open>held_k3\<close>); thread 1 releases lock 3
  (\<open>held_k4\<close>).
\<close>

definition held_k0 :: kernel where
  "held_k0 =
     lock_init (- 1) 3 (lock_init (- 1) 2 (lock_init (- 1) 1
       (boot\<lparr>threads := (threads boot)
          (1 := new_thread 10, 2 := new_thread 30, 3 := new_thread 50), cur := 1\<rparr>)))"

definition held_k1 :: kernel where
  "held_k1 =
     susp_state (projr (lock_acquire priority 8 3
       (susp_state (projr (lock_acquire priority 8 2
         (susp_state (projr (lock_acquire priority 8 1 held_k0))))))))"

definition held_k2 :: kernel where
  "held_k2 = susp_state (projr (lock_acquire priority 8 2 (held_k1\<lparr>cur := 2\<rparr>)))"

definition held_k3 :: kernel where
  "held_k3 = susp_state (projr (lock_acquire priority 8 1 (held_k2\<lparr>cur := 3\<rparr>)))"

definition held_k4 :: kernel where
  "held_k4 = fst (projr (lock_release (- 1) 3 (held_k3\<lparr>cur := 1\<rparr>)))"

text \<open>
  A chain of ten lock holders: thread \<open>t\<close> (priority \<open>t\<close>) holds lock \<open>t\<close>, and each but
  thread 10 is blocked waiting for the lock of the next thread. Thread 0 (priority 31)
  runs.
\<close>

definition chain_kernel :: kernel where
  "chain_kernel =
     \<lparr>threads = (\<lambda>t. if t = 0 then new_thread 31
                      else (new_thread (int t))
                        \<lparr>status := (if t < 10 then THREAD_BLOCKED else THREAD_READY),
                         waiting_for_lock := (if t < 10 then Some (t + 1) else None),
                         locks := [t]\<rparr>),
      lock_tab = (\<lambda>l. \<lparr>holder = Some l,
                        semaphore = \<lparr>sema_value = 0, waiters = (if 2 \<le> l \<and> l \<le> 10 then [l - 1] else [])\<rparr>,
                        priority_lock = - 1\<rparr>),
      elem_tab = elem_tab boot, cond_tab = cond_tab boot,
      cur = 0, intr_context = False, thread_mlfqs = False\<rparr>"

text \<open>
  Lock 1 right after \<open>lock_init\<close>, in donation mode and in the mode of the multilevel
  feedback scheduler.
\<close>

definition free_lock :: kernel where
  "free_lock = lock_init (- 1) 1 boot"

definition free_lock_mlfqs :: kernel where
  "free_lock_mlfqs = lock_init (- 1) 1 (boot\<lparr>thread_mlfqs := True\<rparr>)"

text \<open>
  Two waiters of a condition variable. Thread 1 (priority 20) acquires lock 1
  (\<open>signal_k1\<close>) and waits on condition 1 with the wait-record 11 (\<open>signal_k2\<close>); thread 2
  (priority 40) acquires the lock (\<open>signal_k3\<close>) and waits with the wait-record 12
  (\<open>signal_k4\<close>); thread 0 acquires the lock (\<open>signal_k5\<close>).
\<close>

definition signal_k0 :: kernel where
  "signal_k0 =
     cond_init 1 (lock_init (- 1) 1
       (boot\<lparr>threads := (threads boot)(1 := new_thread 20, 2 := new_thread 40)\<rparr>))"

definition signal_k1 :: kernel where
  "signal_k1 = susp_state (projr (lock_acquire priority 8 1 (signal_k0\<lparr>cur := 1\<rparr>)))"

definition signal_k2 :: kernel where
  "signal_k2 = susp_state (projr (cond_wait priority (- 1) 8 1 1 11 signal_k1))"

definition signal_k3 :: kernel where
  "signal_k3 = susp_state (projr (lock_acquire priority 8 1 (signal_k2\<lparr>cur := 2\<rparr>)))"

definition signal_k4 :: kernel where
  "signal_k4 = susp_state (projr (cond_wait priority (- 1) 8 1 1 12 signal_k3))"

definition signal_k5 :: kernel where
  "signal_k5 = susp_state (projr (lock_acquire priority 8 1 (signal_k4\<lparr>cur := 0\<rparr>)))"

section \<open>The effect of the semaphore operations\<close>

declare sema_up_drain.simps [simp del]
declare lock_acquire_donate.simps [simp del]

lemma sema_up_drain_eq:
  "sema_up_drain ths ws wt =
     ((\<lambda>t. if t \<in> set ws then (ths t)\<lparr>status := THREAD_READY\<rparr> else ths t), [],
      (if ws = [] then wt else Some (hd ws)))"
proof (induction ths ws wt rule: sema_up_drain.induct)
  case (1 ths ws wt)
  show ?case
  proof (cases "ws = []")
    case True
    then show ?thesis by (simp add: sema_up_drain.simps [of _ "[]"])
  next
    case False
    then obtain ys y where ws: "ws = ys @ [y]"
      by (metis append_butlast_last_id)
    have ih: "sema_up_drain (thread_unblock y ths) ys (Some y) =
        ((\<lambda>t. if t \<in> set ys then (thread_unblock y ths t)\<lparr>status := THREAD_READY\<rparr>
              else thread_unblock y ths t), [],
         (if ys = [] then Some y else Some (hd ys)))"
      using "1.IH" [OF False, unfolded ws butlast_snoc last_snoc] by simp
    have unfold: "sema_up_drain ths ws wt = sema_up_drain (thread_unblock y ths) ys (Some y)"
      by (simp add: ws sema_up_drain.simps [of ths "ys @ [y]" wt])
    have threads: "(\<lambda>t. if t \<in> set ys then (thread_unblock y ths t)\<lparr>status := THREAD_READY\<rparr>
              else thread_unblock y ths t) =
          (\<lambda>t. if t \<in> set ws then (ths t)\<lparr>status := THREAD_READY\<rparr> else ths t)"
      by (auto simp: ws thread_unblock_def fun_eq_iff)
    have front: "(if ys = [] then Some y else Some (hd ys)) = Some (hd ws)"
      by (cases ys) (simp_all add: ws)
    show ?thesis
      using False by (simp add: unfold ih threads front)
  qed
qed

lemma sema_up_eq:
  "sema_up c ths s =
     ((\<lambda>t. if t \<in> set (waiters s) then (ths t)\<lparr>status := THREAD_READY\<rparr> else ths t),
      s\<lparr>waiters := [], sema_value := sema_value s + 1\<rparr>,
      (case waiters s of
         [] \<Rightarrow> False
       | w # _ \<Rightarrow> priority (ths w) > priority (ths c)))"
  by (auto simp: sema_up_def sema_up_drain_eq split: list.splits)


lemma sema_step_ups_mono: "completed_ups r \<le> completed_ups (sema_step hp x r)"
  by (cases x) (auto simp: sema_down_loop_def sema_try_down_def sema_up_eq split: susp.splits prod.splits)

lemma sema_steps_ups_mono: "completed_ups r \<le> completed_ups (sema_steps hp xs r)"
proof (induction xs arbitrary: r)
  case Nil
  show ?case by simp
next
  case (Cons x xs)
  have "completed_ups r \<le> completed_ups (sema_step hp x r)" by (rule sema_step_ups_mono)
  also have "\<dots> \<le> completed_ups (sema_steps hp xs (sema_step hp x r))" by (rule Cons.IH)
  finally show ?case by simp
qed


lemma word32_succ: "uint (x + 1 :: 32 word) = (uint x + 1) mod 2 ^ 32"
  by (simp add: uint_word_ariths)

lemma word32_pred: "uint (x - 1 :: 32 word) = (uint x - 1) mod 2 ^ 32"
  by (simp add: uint_word_ariths)

lemma count_up:
  assumes "uint (x :: 32 word) = (a + int u - int d) mod 2 ^ 32"
  shows "uint (x + 1) = (a + int (u + 1) - int d) mod 2 ^ 32"
proof -
  have "uint (x + 1) = ((a + int u - int d) mod 2 ^ 32 + 1) mod 2 ^ 32"
    using assms by (simp add: word32_succ)
  also have "\<dots> = (a + int u - int d + 1) mod 2 ^ 32"
    by (simp add: mod_add_left_eq)
  also have "a + int u - int d + 1 = a + int (u + 1) - int d" by simp
  finally show ?thesis .
qed

lemma count_down:
  assumes "uint (x :: 32 word) = (a + int u - int d) mod 2 ^ 32"
  shows "uint (x - 1) = (a + int u - int (d + 1)) mod 2 ^ 32"
proof -
  have "uint (x - 1) = ((a + int u - int d) mod 2 ^ 32 - 1) mod 2 ^ 32"
    using assms by (simp add: word32_pred)
  also have "\<dots> = (a + int u - int d - 1) mod 2 ^ 32"
    by (simp add: mod_diff_left_eq)
  also have "a + int u - int d - 1 = a + int u - int (d + 1)" by simp
  finally show ?thesis .
qed

lemma sema_step_count: "sema_count v r \<Longrightarrow> sema_count v (sema_step hp x r)"
proof (cases x)
  case (Down t)
  assume "sema_count v r"
  then show ?thesis using Down count_down [of "sema_value (run_sema r)" "uint v" "completed_ups r" "completed_downs r"]
    by (auto simp: sema_count_def sema_down_loop_def)
next
  case Try_down
  assume "sema_count v r"
  then show ?thesis using Try_down count_down [of "sema_value (run_sema r)" "uint v" "completed_ups r" "completed_downs r"]
    by (auto simp: sema_count_def sema_try_down_def)
next
  case (Up t)
  assume "sema_count v r"
  then show ?thesis using Up count_up [of "sema_value (run_sema r)" "uint v" "completed_ups r" "completed_downs r"]
    by (auto simp: sema_count_def sema_up_eq)
qed

lemma sema_steps_count: "sema_count v r \<Longrightarrow> sema_count v (sema_steps hp xs r)"
  by (induction xs arbitrary: r) (auto intro: sema_step_count)


lemma word32_pred_exact: "(x :: 32 word) \<noteq> 0 \<Longrightarrow> uint (x - 1) = uint x - 1"
  using uint_minus_simple_alt word_le_sub1 by force

lemma word32_succ_exact: "uint (x :: 32 word) + 1 < 2 ^ 32 \<Longrightarrow> uint (x + 1) = uint x + 1"
  by (simp add: word32_succ)

lemma sema_step_exact:
  assumes "sema_exact v r" and "uint v + int (completed_ups (sema_step hp x r)) < 2 ^ 32"
  shows "sema_exact v (sema_step hp x r)"
proof (cases x)
  case (Down t)
  then show ?thesis using assms
    by (auto simp: sema_exact_def sema_down_loop_def word32_pred_exact)
next
  case Try_down
  then show ?thesis using assms
    by (auto simp: sema_exact_def sema_try_down_def word32_pred_exact)
next
  case (Up t)
  have "0 \<le> int (completed_downs r)" by simp
  then show ?thesis using Up assms
    by (auto simp: sema_exact_def sema_up_eq word32_succ_exact)
qed

lemma sema_steps_exact:
  "sema_exact v r \<Longrightarrow> uint v + int (completed_ups (sema_steps hp xs r)) < 2 ^ 32 \<Longrightarrow>
   sema_exact v (sema_steps hp xs r)"
proof (induction xs arbitrary: r)
  case Nil
  then show ?case by simp
next
  case (Cons x xs)
  have "completed_ups (sema_step hp x r) \<le> completed_ups (sema_steps hp xs (sema_step hp x r))"
    by (rule sema_steps_ups_mono)
  with Cons.prems have "uint v + int (completed_ups (sema_step hp x r)) < 2 ^ 32" by simp
  with Cons.prems have "sema_exact v (sema_step hp x r)" by (intro sema_step_exact)
  with Cons show ?case by simp
qed

section \<open>The donation walk of lock_acquire\<close>

lemma holder_chain_cong:
  "(\<And>t. waiting_for_lock (threads k' t) = waiting_for_lock (threads k t)) \<Longrightarrow>
   (\<And>l. holder (lock_tab k' l) = holder (lock_tab k l)) \<Longrightarrow>
   holder_chain k' h n = holder_chain k h n"
proof (induction k h n rule: holder_chain.induct)
  case (3 k h n)
  then show ?case by (cases "waiting_for_lock (threads k h)") simp_all
qed simp_all

lemma give_threads:
  "threads (lock_acquire_give h ln k) =
     (threads k)(h := (threads k h)\<lparr>priority := priority (threads k (cur k)), is_donated := True\<rparr>)"
  by (simp add: lock_acquire_give_def Let_def thread_given_set_priority_def)

lemma give_lock_tab:
  "holder (lock_tab (lock_acquire_give h ln k) l) = holder (lock_tab k l) \<and>
   semaphore (lock_tab (lock_acquire_give h ln k) l) = semaphore (lock_tab k l)"
  by (simp add: lock_acquire_give_def Let_def)

lemma give_rest:
  "cur (lock_acquire_give h ln k) = cur k \<and>
   thread_mlfqs (lock_acquire_give h ln k) = thread_mlfqs k \<and>
   intr_context (lock_acquire_give h ln k) = intr_context k \<and>
   elem_tab (lock_acquire_give h ln k) = elem_tab k \<and>
   cond_tab (lock_acquire_give h ln k) = cond_tab k"
  by (simp add: lock_acquire_give_def Let_def)


lemma give_chain: "holder_chain (lock_acquire_give h ln k) x n = holder_chain k x n"
  by (rule holder_chain_cong) (simp_all add: give_threads give_lock_tab)

lemma donate_None: "lock_acquire_donate LL None ln it k = k"
  by (simp add: lock_acquire_donate.simps [of LL None])

lemma donate_stop:
  "thread_mlfqs k \<or> \<not> priority (threads k h) < priority (threads k (cur k)) \<Longrightarrow>
   lock_acquire_donate LL (Some h) ln it k = k"
  by (auto simp: lock_acquire_donate.simps [of LL "Some h"])

lemma donate_go:
  "\<not> thread_mlfqs k \<Longrightarrow> priority (threads k h) < priority (threads k (cur k)) \<Longrightarrow>
   lock_acquire_donate LL (Some h) ln it k =
     (case waiting_for_lock (threads k h) of
        None \<Rightarrow> lock_acquire_give h ln k
      | Some l' \<Rightarrow>
          if it < LL
          then lock_acquire_donate LL (holder (lock_tab k l')) l' (it + 1) (lock_acquire_give h ln k)
          else lock_acquire_give h ln k)"
  by (simp add: lock_acquire_donate.simps [of LL "Some h" ln it k] Let_def give_threads give_lock_tab
      split: option.splits)

lemma donate_frame:
  "t \<notin> set (holder_chain k lh (Suc (LL - it))) \<Longrightarrow>
   threads (lock_acquire_donate LL lh ln it k) t = threads k t"
proof (induction LL lh ln it k rule: lock_acquire_donate.induct)
  case (1 LL lh ln it k)
  show ?case
  proof (cases lh)
    case None
    then show ?thesis by (simp add: donate_None)
  next
    case (Some h)
    with "1.prems" have th: "t \<noteq> h" by simp
    show ?thesis
    proof (cases "\<not> thread_mlfqs k \<and> priority (threads k h) < priority (threads k (cur k))")
      case False
      then show ?thesis using Some by (simp add: donate_stop)
    next
      case go: True
      define k2 where "k2 = lock_acquire_give h ln k"
      have k2t: "threads k2 t = threads k t"
        using th by (simp add: k2_def give_threads)
      show ?thesis
      proof (cases "waiting_for_lock (threads k h)")
        case None
        then show ?thesis using Some go k2t by (simp add: donate_go k2_def)
      next
        case (Some l')
        show ?thesis
        proof (cases "it < LL")
          case False
          then show ?thesis using Some \<open>lh = Some h\<close> go k2t by (simp add: donate_go k2_def)
        next
          case True
          have w2: "waiting_for_lock (threads k2 h) = Some l'"
            using Some by (simp add: k2_def give_threads)
          have suc: "Suc (LL - it) = Suc (Suc (LL - (it + 1)))"
            using True by simp
          have "t \<notin> set (holder_chain k (holder (lock_tab k l')) (Suc (LL - (it + 1))))"
            using "1.prems" \<open>lh = Some h\<close> Some unfolding suc by simp
          then have "t \<notin> set (holder_chain k2 (holder (lock_tab k2 l')) (Suc (LL - (it + 1))))"
            by (simp add: k2_def give_chain give_lock_tab)
          then have "threads (lock_acquire_donate LL (holder (lock_tab k2 l')) l' (it + 1) k2) t = threads k2 t"
            using "1.IH" [OF \<open>lh = Some h\<close> go k2_def w2 True] by simp
          then show ?thesis
            using Some \<open>lh = Some h\<close> go True k2t
            by (simp add: donate_go k2_def [symmetric] give_lock_tab [of h ln k, folded k2_def])
        qed
      qed
    qed
  qed
qed


lemma donate_gives:
  "\<not> thread_mlfqs k \<Longrightarrow>
   distinct (holder_chain k lh (Suc (LL - it))) \<Longrightarrow>
   cur k \<notin> set (holder_chain k lh (Suc (LL - it))) \<Longrightarrow>
   \<forall>t\<in>set (holder_chain k lh (Suc (LL - it))). priority (threads k t) < priority (threads k (cur k)) \<Longrightarrow>
   t \<in> set (holder_chain k lh (Suc (LL - it))) \<Longrightarrow>
   priority (threads (lock_acquire_donate LL lh ln it k) t) = priority (threads k (cur k)) \<and>
   is_donated (threads (lock_acquire_donate LL lh ln it k) t)"
proof (induction LL lh ln it k rule: lock_acquire_donate.induct)
  case (1 LL lh ln it k)
  note mlfqs = "1.prems"(1) and dist = "1.prems"(2) and notcur = "1.prems"(3)
    and low = "1.prems"(4) and mem = "1.prems"(5)
  show ?case
  proof (cases lh)
    case None
    then show ?thesis using mem by simp
  next
    case (Some h)
    define nxt where "nxt = (case waiting_for_lock (threads k h) of
        None \<Rightarrow> None | Some l \<Rightarrow> holder (lock_tab k l))"
    have chain: "holder_chain k lh (Suc (LL - it)) = h # holder_chain k nxt (LL - it)"
      using Some by (simp add: nxt_def)
    have hcur: "h \<noteq> cur k" using notcur chain by auto
    have go: "\<not> thread_mlfqs k \<and> priority (threads k h) < priority (threads k (cur k))"
      using mlfqs low chain by simp
    define k2 where "k2 = lock_acquire_give h ln k"
    have k2h: "priority (threads k2 h) = priority (threads k (cur k)) \<and> is_donated (threads k2 h)"
      by (simp add: k2_def give_threads)
    have k2o: "\<And>u. u \<noteq> h \<Longrightarrow> threads k2 u = threads k u"
      by (simp add: k2_def give_threads)
    show ?thesis
    proof (cases "waiting_for_lock (threads k h)")
      case None
      then have "holder_chain k lh (Suc (LL - it)) = [h]"
        using chain by (simp add: nxt_def)
      then have "t = h" using mem by simp
      then show ?thesis using Some None go k2h by (simp add: donate_go k2_def)
    next
      case wait: (Some l')
      show ?thesis
      proof (cases "it < LL")
        case False
        then have "holder_chain k lh (Suc (LL - it)) = [h]"
          using chain by (cases nxt) simp_all
        then have "t = h" using mem by simp
        then show ?thesis using Some wait False go k2h by (simp add: donate_go k2_def)
      next
        case True
        have nxt: "nxt = holder (lock_tab k l')" using wait by (simp add: nxt_def)
        have suc: "LL - it = Suc (LL - (it + 1))" using True by simp
        let ?tail = "holder_chain k (holder (lock_tab k l')) (Suc (LL - (it + 1)))"
        have chain': "holder_chain k lh (Suc (LL - it)) = h # ?tail"
          using chain nxt suc by simp
        have tail2: "holder_chain k2 (holder (lock_tab k2 l')) (Suc (LL - (it + 1))) = ?tail"
          by (simp add: k2_def give_chain give_lock_tab)
        have hnt: "h \<notin> set ?tail" using dist chain' by simp
        have w2: "waiting_for_lock (threads k2 h) = Some l'"
          using wait by (simp add: k2_def give_threads)
        have unfold: "lock_acquire_donate LL lh ln it k =
            lock_acquire_donate LL (holder (lock_tab k2 l')) l' (it + 1) k2"
          using Some wait True go by (simp add: donate_go k2_def give_lock_tab)
        show ?thesis
        proof (cases "t = h")
          case True
          have "h \<notin> set (holder_chain k2 (holder (lock_tab k2 l')) (Suc (LL - (it + 1))))"
            using hnt unfolding tail2 .
          then have "threads (lock_acquire_donate LL (holder (lock_tab k2 l')) l' (it + 1) k2) h = threads k2 h"
            by (rule donate_frame)
          then show ?thesis using True unfold k2h by simp
        next
          case False
          then have tmem: "t \<in> set ?tail" using mem chain' by simp
          have p1: "\<not> thread_mlfqs k2" using mlfqs by (simp add: k2_def give_rest)
          have p2: "distinct (holder_chain k2 (holder (lock_tab k2 l')) (Suc (LL - (it + 1))))"
            using dist chain' unfolding tail2 by simp
          have c2: "cur k2 = cur k" by (simp add: k2_def give_rest)
          have p3: "cur k2 \<notin> set (holder_chain k2 (holder (lock_tab k2 l')) (Suc (LL - (it + 1))))"
            using notcur chain' unfolding tail2 c2 by simp
          have p4: "\<forall>u\<in>set (holder_chain k2 (holder (lock_tab k2 l')) (Suc (LL - (it + 1)))).
              priority (threads k2 u) < priority (threads k2 (cur k2))"
          proof
            fix u
            assume "u \<in> set (holder_chain k2 (holder (lock_tab k2 l')) (Suc (LL - (it + 1))))"
            then have u: "u \<in> set ?tail" unfolding tail2 .
            then have "u \<noteq> h" using hnt by auto
            then show "priority (threads k2 u) < priority (threads k2 (cur k2))"
              using u low chain' hcur by (simp add: k2o c2)
          qed
          have p5: "t \<in> set (holder_chain k2 (holder (lock_tab k2 l')) (Suc (LL - (it + 1))))"
            using tmem unfolding tail2 .
          have "priority (threads (lock_acquire_donate LL (holder (lock_tab k2 l')) l' (it + 1) k2) t) =
                priority (threads k2 (cur k2)) \<and>
              is_donated (threads (lock_acquire_donate LL (holder (lock_tab k2 l')) l' (it + 1) k2) t)"
            using "1.IH" [OF Some go k2_def w2 True p1 p2 p3 p4 p5] .
          then show ?thesis using unfold hcur by (simp add: k2o c2)
        qed
      qed
    qed
  qed
qed

lemma donate_preserves:
  assumes "P k" and "\<And>h ln k'. P k' \<Longrightarrow> P (lock_acquire_give h ln k')"
  shows "P (lock_acquire_donate LL lh ln it k)"
  using assms(1)
proof (induction LL lh ln it k rule: lock_acquire_donate.induct)
  case (1 LL lh ln it k)
  show ?case
  proof (cases lh)
    case None
    then show ?thesis using "1.prems" by (simp add: donate_None)
  next
    case (Some h)
    show ?thesis
    proof (cases "\<not> thread_mlfqs k \<and> priority (threads k h) < priority (threads k (cur k))")
      case False
      then show ?thesis using Some "1.prems" by (simp add: donate_stop)
    next
      case go: True
      define k2 where "k2 = lock_acquire_give h ln k"
      have P2: "P k2" using "1.prems" assms(2) by (simp add: k2_def)
      show ?thesis
      proof (cases "waiting_for_lock (threads k h)")
        case None
        then show ?thesis using Some go P2 by (simp add: donate_go k2_def)
      next
        case wait: (Some l')
        show ?thesis
        proof (cases "it < LL")
          case False
          then show ?thesis using Some wait go P2 by (simp add: donate_go k2_def)
        next
          case True
          have w2: "waiting_for_lock (threads k2 h) = Some l'"
            using wait by (simp add: k2_def give_threads)
          have "P (lock_acquire_donate LL (holder (lock_tab k2 l')) l' (it + 1) k2)"
            using "1.IH" [OF Some go k2_def w2 True P2] .
          then show ?thesis
            using Some wait True go by (simp add: donate_go k2_def give_lock_tab)
        qed
      qed
    qed
  qed
qed


lemma holder_chain_take: "take n (holder_chain k x m) = holder_chain k x (min n m)"
proof (induction k x m arbitrary: n rule: holder_chain.induct)
  case (3 k h m)
  then show ?case by (cases n) simp_all
qed simp_all

lemma holder_chain_other:
  "c \<notin> set (holder_chain k x n) \<Longrightarrow>
   holder_chain (k\<lparr>threads := (threads k)(c := v)\<rparr>) x n = holder_chain k x n"
proof (induction k x n rule: holder_chain.induct)
  case (3 k h n)
  then show ?case by (cases "waiting_for_lock (threads k h)") auto
qed simp_all

lemma lock_acquire_down_threads:
  "t \<noteq> cur k \<Longrightarrow> threads (susp_state (lock_acquire_down hp l k)) t = threads k t"
  by (simp add: lock_acquire_down_def sema_down_loop_def lock_acquire_finish_def thread_block_def Let_def)

text \<open>
  Claim C3. In donation mode, let the ownership chain of the lock (its holder, the holder
  of the lock that holder waits for, and so on) have at least \<^verbatim>\<open>LOCK_LEVEL\<close> + 2 threads, all
  different and none of them the caller. Then \<open>lock_acquire\<close> fails no assertion and goes
  on to its \<open>sema_down\<close>; the thread at position \<^verbatim>\<open>LOCK_LEVEL\<close> + 2 of the chain is left as
  it was, so it receives no donation; and when every thread of the chain has a priority
  below the caller's, each of the first \<^verbatim>\<open>LOCK_LEVEL\<close> + 1 threads has the caller's priority
  and its donated flag set afterwards.
\<close>

theorem lock_acquire_donation_bounded:
  assumes mlfqs: "\<not> thread_mlfqs k" and intr: "\<not> intr_context k"
    and held: "\<not> lock_held_by_current_thread l k"
    and len: "length (holder_chain k (holder (lock_tab k l)) (LOCK_LEVEL + 2)) = LOCK_LEVEL + 2"
    and dist: "distinct (holder_chain k (holder (lock_tab k l)) (LOCK_LEVEL + 2))"
    and notcur: "cur k \<notin> set (holder_chain k (holder (lock_tab k l)) (LOCK_LEVEL + 2))"
  shows "\<exists>r. lock_acquire hp LOCK_LEVEL l k = Inr r \<and>
      threads (susp_state r) (holder_chain k (holder (lock_tab k l)) (LOCK_LEVEL + 2) ! (LOCK_LEVEL + 1)) =
        threads k (holder_chain k (holder (lock_tab k l)) (LOCK_LEVEL + 2) ! (LOCK_LEVEL + 1)) \<and>
      ((\<forall>t\<in>set (holder_chain k (holder (lock_tab k l)) (LOCK_LEVEL + 2)).
          priority (threads k t) < priority (threads k (cur k))) \<longrightarrow>
       (\<forall>i\<le>LOCK_LEVEL.
          priority (threads (susp_state r) (holder_chain k (holder (lock_tab k l)) (LOCK_LEVEL + 2) ! i)) =
            priority (threads k (cur k)) \<and>
          is_donated (threads (susp_state r) (holder_chain k (holder (lock_tab k l)) (LOCK_LEVEL + 2) ! i))))"
proof -
  define ch where "ch = holder_chain k (holder (lock_tab k l)) (LOCK_LEVEL + 2)"
  define k1 where "k1 = k\<lparr>threads := (threads k)
      (cur k := (threads k (cur k))\<lparr>waiting_for_lock := Some l\<rparr>)\<rparr>"
  define kd where "kd = lock_acquire_donate LOCK_LEVEL (holder (lock_tab k l)) l 0 k1"
  define r where "r = lock_acquire_down hp l kd"
  have hold: "holder (lock_tab k l) \<noteq> None"
    using len by (cases "holder (lock_tab k l)") simp_all
  have res: "lock_acquire hp LOCK_LEVEL l k = Inr r"
    using mlfqs intr held hold
    by (simp add: lock_acquire_def lock_acquire_enter_def r_def kd_def k1_def Let_def)
  have pre: "holder_chain k (holder (lock_tab k l)) (Suc LOCK_LEVEL) = take (Suc LOCK_LEVEL) ch"
    by (simp add: ch_def holder_chain_take)
  have notcur': "cur k \<notin> set (take (Suc LOCK_LEVEL) ch)"
    using notcur unfolding ch_def [symmetric] by (auto dest: in_set_takeD)
  have ch1: "holder_chain k1 (holder (lock_tab k l)) (Suc (LOCK_LEVEL - 0)) = take (Suc LOCK_LEVEL) ch"
    using notcur' unfolding k1_def by (simp add: holder_chain_other pre)
  have c1: "cur k1 = cur k" and m1: "\<not> thread_mlfqs k1"
    using mlfqs by (simp_all add: k1_def)
  have t1: "\<And>t. t \<noteq> cur k \<Longrightarrow> threads k1 t = threads k t"
    by (simp add: k1_def)
  have p1: "priority (threads k1 (cur k)) = priority (threads k (cur k))"
    by (simp add: k1_def)
  have cd: "cur kd = cur k"
    unfolding kd_def by (rule donate_preserves) (simp_all add: c1 give_rest)
  have last_in: "ch ! (LOCK_LEVEL + 1) \<in> set ch"
    using len unfolding ch_def [symmetric] by simp
  have last_cur: "ch ! (LOCK_LEVEL + 1) \<noteq> cur k"
    using last_in notcur unfolding ch_def [symmetric] by auto
  have "ch = take (Suc LOCK_LEVEL) ch @ [ch ! (LOCK_LEVEL + 1)]"
    using len unfolding ch_def [symmetric]
    by (metis Suc_eq_plus1 add_2_eq_Suc' lessI take_Suc_conv_app_nth take_all order_refl)
  then have last_out: "ch ! (LOCK_LEVEL + 1) \<notin> set (take (Suc LOCK_LEVEL) ch)"
    using dist unfolding ch_def [symmetric]
    by (metis distinct_append disjoint_iff list.set_intros(1))
  have "threads kd (ch ! (LOCK_LEVEL + 1)) = threads k1 (ch ! (LOCK_LEVEL + 1))"
    unfolding kd_def using last_out ch1 by (intro donate_frame) simp
  then have frame: "threads (susp_state r) (ch ! (LOCK_LEVEL + 1)) = threads k (ch ! (LOCK_LEVEL + 1))"
    using last_cur by (simp add: r_def lock_acquire_down_threads cd t1)
  have gives: "priority (threads (susp_state r) (ch ! i)) = priority (threads k (cur k)) \<and>
      is_donated (threads (susp_state r) (ch ! i))"
    if low: "\<forall>t\<in>set ch. priority (threads k t) < priority (threads k (cur k))" and i: "i \<le> LOCK_LEVEL" for i
  proof -
    have mem: "ch ! i \<in> set (take (Suc LOCK_LEVEL) ch)"
      using i len unfolding ch_def [symmetric] by (simp add: in_set_conv_nth) (metis le_imp_less_Suc less_Suc_eq nth_take)
    then have icur: "ch ! i \<noteq> cur k" using notcur' by auto
    have d1: "distinct (holder_chain k1 (holder (lock_tab k l)) (Suc (LOCK_LEVEL - 0)))"
      using dist unfolding ch1 ch_def [symmetric] by simp
    have n1: "cur k1 \<notin> set (holder_chain k1 (holder (lock_tab k l)) (Suc (LOCK_LEVEL - 0)))"
      using notcur' unfolding ch1 c1 .
    have l1: "\<forall>t\<in>set (holder_chain k1 (holder (lock_tab k l)) (Suc (LOCK_LEVEL - 0))).
        priority (threads k1 t) < priority (threads k1 (cur k1))"
      unfolding ch1 c1 p1
    proof
      fix t assume t: "t \<in> set (take (Suc LOCK_LEVEL) ch)"
      then have "t \<noteq> cur k" using notcur' by auto
      moreover have "t \<in> set ch" using t by (rule in_set_takeD)
      ultimately show "priority (threads k1 t) < priority (threads k (cur k))"
        using low by (simp add: t1)
    qed
    have e1: "ch ! i \<in> set (holder_chain k1 (holder (lock_tab k l)) (Suc (LOCK_LEVEL - 0)))"
      using mem unfolding ch1 .
    have "priority (threads kd (ch ! i)) = priority (threads k1 (cur k1)) \<and> is_donated (threads kd (ch ! i))"
      unfolding kd_def by (rule donate_gives [OF m1 d1 n1 l1 e1])
    then show ?thesis
      using icur by (simp add: r_def lock_acquire_down_threads cd c1 p1)
  qed
  show ?thesis
    unfolding ch_def [symmetric] using res frame gives by blast
qed

theorem lock_acquire_donation_bounded_witness:
  "\<not> thread_mlfqs chain_kernel \<and> \<not> intr_context chain_kernel \<and>
   \<not> lock_held_by_current_thread 1 chain_kernel \<and>
   holder_chain chain_kernel (holder (lock_tab chain_kernel 1)) (8 + 2) = [1, 2, 3, 4, 5, 6, 7, 8, 9, 10] \<and>
   (\<exists>r. lock_acquire priority 8 1 chain_kernel = Inr r \<and>
      priority (threads (susp_state r) 1) = 31 \<and>
      priority (threads (susp_state r) 9) = 31 \<and> is_donated (threads (susp_state r) 9) \<and>
      priority (threads (susp_state r) 10) = 10 \<and> \<not> is_donated (threads (susp_state r) 10))"
proof -
  have chain: "holder_chain chain_kernel (holder (lock_tab chain_kernel 1)) (8 + 2) =
      [1, 2, 3, 4, 5, 6, 7, 8, 9, 10]"
    by code_simp
  have flags: "\<not> thread_mlfqs chain_kernel" "\<not> intr_context chain_kernel"
      "\<not> lock_held_by_current_thread 1 chain_kernel"
    by (simp_all add: chain_kernel_def lock_held_by_current_thread_def)
  have low: "\<forall>t\<in>set [1, 2, 3, 4, 5, 6, 7, 8, 9, 10 :: nat].
      priority (threads chain_kernel t) < priority (threads chain_kernel (cur chain_kernel))"
    by (simp add: chain_kernel_def new_thread_def)
  have c0: "cur chain_kernel = 0" and p0: "priority (threads chain_kernel 0) = 31"
    and t10: "priority (threads chain_kernel 10) = 10" "\<not> is_donated (threads chain_kernel 10)"
    by (simp_all add: chain_kernel_def new_thread_def)
  obtain r where r: "lock_acquire priority 8 1 chain_kernel = Inr r"
    and frame: "threads (susp_state r) ([1, 2, 3, 4, 5, 6, 7, 8, 9, 10] ! (8 + 1)) =
        threads chain_kernel ([1, 2, 3, 4, 5, 6, 7, 8, 9, 10] ! (8 + 1))"
    and gives: "\<forall>i\<le>8. priority (threads (susp_state r) ([1, 2, 3, 4, 5, 6, 7, 8, 9, 10] ! i)) =
          priority (threads chain_kernel (cur chain_kernel)) \<and>
        is_donated (threads (susp_state r) ([1, 2, 3, 4, 5, 6, 7, 8, 9, 10] ! i))"
    using lock_acquire_donation_bounded [of chain_kernel 1 8 priority, unfolded chain] flags low
    by (auto simp: c0)
  have "priority (threads (susp_state r) 1) = 31"
    using gives [rule_format, of 0] by (simp add: c0 p0)
  moreover have "priority (threads (susp_state r) 9) = 31 \<and> is_donated (threads (susp_state r) 9)"
    using gives [rule_format, of 8] by (simp add: c0 p0)
  moreover have "priority (threads (susp_state r) 10) = 10 \<and> \<not> is_donated (threads (susp_state r) 10)"
    using frame t10 by simp
  ultimately show ?thesis
    using r chain flags by blast
qed

section \<open>Holders and lists of held locks\<close>

lemma set_list_insert_ordered: "set (list_insert_ordered xs x f) = insert x (set xs)"
  by (induction xs) auto

lemma distinct_list_insert_ordered:
  "distinct (list_insert_ordered xs x f) = (x \<notin> set xs \<and> distinct xs)"
  by (induction xs) (auto simp: set_list_insert_ordered)

lemma lock_inv_cong:
  "(\<And>t. locks (threads k' t) = locks (threads k t)) \<Longrightarrow>
   (\<And>l. holder (lock_tab k' l) = holder (lock_tab k l)) \<Longrightarrow>
   (\<And>l. sema_value (semaphore (lock_tab k' l)) = sema_value (semaphore (lock_tab k l))) \<Longrightarrow>
   lock_inv L k' = lock_inv L k"
  by (simp add: lock_inv_def)

lemma lock_inv_init:
  assumes "lock_inv L k" and "l \<notin> L"
  shows "lock_inv (insert l L) (lock_init PF l k)"
proof -
  have notin: "\<And>t. l \<notin> set (locks (threads k t))"
    using assms by (auto simp: lock_inv_def)
  show ?thesis
    using assms notin
    by (auto simp: lock_inv_def lock_init_def sema_init_def)
qed

lemma lock_inv_enter:
  assumes "lock_inv L k" and "lock_acquire_enter LL l k = Inr k1"
  shows "lock_inv L k1 \<and> cur k1 = cur k \<and> thread_mlfqs k1 = thread_mlfqs k"
proof -
  define k0 where "k0 = (if holder (lock_tab k l) \<noteq> None \<and> \<not> thread_mlfqs k
       then k\<lparr>threads := (threads k)(cur k := (threads k (cur k))\<lparr>waiting_for_lock := Some l\<rparr>)\<rparr>
       else k)"
  have k1: "k1 = lock_acquire_donate LL (holder (lock_tab k l)) l 0 k0"
    using assms(2) by (auto simp: lock_acquire_enter_def Let_def k0_def split: if_splits)
  have inv0: "lock_inv L k0"
    using assms(1) by (simp add: k0_def lock_inv_def)
  have c0: "cur k0 = cur k \<and> thread_mlfqs k0 = thread_mlfqs k"
    by (simp add: k0_def)
  have "(\<forall>t. locks (threads k1 t) = locks (threads k0 t)) \<and>
        (\<forall>l. holder (lock_tab k1 l) = holder (lock_tab k0 l)) \<and>
        (\<forall>l. semaphore (lock_tab k1 l) = semaphore (lock_tab k0 l)) \<and>
        cur k1 = cur k0 \<and> thread_mlfqs k1 = thread_mlfqs k0"
    unfolding k1 by (rule donate_preserves) (simp_all add: give_threads give_lock_tab give_rest)
  then show ?thesis
    using inv0 c0 lock_inv_cong [of k1 k0 L] by simp
qed

lemma lock_inv_down:
  assumes inv: "lock_inv L k" and l: "l \<in> L" and mlfqs: "\<not> thread_mlfqs k"
  shows "lock_inv L (susp_state (lock_acquire_down hp l k))"
proof (cases "sema_value (semaphore (lock_tab k l)) = 0")
  case True
  have same: "lock_inv L (susp_state (lock_acquire_down hp l k)) = lock_inv L k"
    using True
    by (intro lock_inv_cong) (simp_all add: lock_acquire_down_def sema_down_loop_def thread_block_def)
  then show ?thesis
    using inv by simp
next
  case False
  then have free: "holder (lock_tab k l) = None" and one: "sema_value (semaphore (lock_tab k l)) = 1"
    using inv l by (auto simp: lock_inv_def split: if_splits)
  then have notin: "\<And>t. l \<notin> set (locks (threads k t))"
    using inv l by (simp add: lock_inv_def)
  show ?thesis
    using inv l mlfqs False free one notin
    by (auto simp: lock_acquire_down_def sema_down_loop_def lock_acquire_finish_def Let_def
        lock_inv_def set_list_insert_ordered distinct_list_insert_ordered)
qed


lemma lock_inv_acquire:
  assumes "lock_inv L k" and "l \<in> L" and "\<not> thread_mlfqs k" and "lock_acquire hp LL l k = Inr r"
  shows "lock_inv L (susp_state r)"
proof -
  obtain k1 where k1: "lock_acquire_enter LL l k = Inr k1" and r: "r = lock_acquire_down hp l k1"
    using assms(4) by (auto simp: lock_acquire_def split: sum.splits)
  have "lock_inv L k1 \<and> cur k1 = cur k \<and> thread_mlfqs k1 = thread_mlfqs k"
    using assms(1) k1 by (rule lock_inv_enter)
  then show ?thesis
    unfolding r using assms(2,3) by (intro lock_inv_down) simp_all
qed

lemma lock_release_up_fields:
  assumes "lock_release_up l k = Inr (k1, y)"
  shows "(\<forall>t. locks (threads k1 t) = locks (threads k t)) \<and>
     holder (lock_tab k1 l) = None \<and>
     sema_value (semaphore (lock_tab k1 l)) = sema_value (semaphore (lock_tab k l)) + 1 \<and>
     (\<forall>l'. l' \<noteq> l \<longrightarrow> lock_tab k1 l' = lock_tab k l') \<and>
     cur k1 = cur k \<and> thread_mlfqs k1 = thread_mlfqs k \<and>
     cond_tab k1 = cond_tab k \<and> elem_tab k1 = elem_tab k"
  using assms by (auto simp: lock_release_up_def Let_def sema_up_eq split: if_splits)

lemma lock_release_rest_fields:
  assumes "lock_release_rest PF c l k1 = Inr k2" and "\<not> thread_mlfqs k1"
  shows "(\<forall>t. locks (threads k2 t) =
            (if t = c then remove1 l (locks (threads k1 c)) else locks (threads k1 t))) \<and>
     (\<forall>l'. holder (lock_tab k2 l') = holder (lock_tab k1 l')) \<and>
     (\<forall>l'. semaphore (lock_tab k2 l') = semaphore (lock_tab k1 l')) \<and>
     cur k2 = cur k1 \<and> thread_mlfqs k2 = thread_mlfqs k1 \<and>
     cond_tab k2 = cond_tab k1 \<and> elem_tab k2 = elem_tab k1"
  using assms
  by (auto simp: lock_release_rest_def Let_def thread_set_priority_def thread_given_set_priority_def
      split: if_splits list.splits)

lemma lock_release_rest_ok:
  "l \<in> set (locks (threads k1 c)) \<Longrightarrow> \<exists>k2. lock_release_rest PF c l k1 = Inr k2"
  by (simp add: lock_release_rest_def Let_def split: list.splits)

lemma lock_inv_release:
  assumes inv: "lock_inv L k" and l: "l \<in> L" and mlfqs: "\<not> thread_mlfqs k"
    and held: "lock_held_by_current_thread l k"
  shows "\<exists>k' yielded. lock_release PF l k = Inr (k', yielded) \<and> lock_inv L k'"
proof -
  have h: "holder (lock_tab k l) = Some (cur k)"
    using held by (simp add: lock_held_by_current_thread_def)
  then have mem: "l \<in> set (locks (threads k (cur k)))" and zero: "sema_value (semaphore (lock_tab k l)) = 0"
    using inv l by (auto simp: lock_inv_def)
  have others: "\<And>t. t \<noteq> cur k \<Longrightarrow> l \<notin> set (locks (threads k t))"
    using inv l h by (auto simp: lock_inv_def)
  obtain k1 y where up: "lock_release_up l k = Inr (k1, y)"
    using held by (cases "sema_up (cur k) (threads k) (semaphore (lock_tab k l))")
      (simp add: lock_release_up_def Let_def)
  note f1 = lock_release_up_fields [OF up]
  have m1: "\<not> thread_mlfqs k1" using f1 mlfqs by simp
  have "l \<in> set (locks (threads k1 (cur k)))" using f1 mem by simp
  then obtain k2 where rest: "lock_release_rest PF (cur k) l k1 = Inr k2"
    using lock_release_rest_ok by blast
  note f2 = lock_release_rest_fields [OF rest m1]
  have res: "lock_release PF l k = Inr (k2, y)"
    by (simp add: lock_release_def up rest)
  have locks2: "\<And>t. locks (threads k2 t) =
      (if t = cur k then remove1 l (locks (threads k t)) else locks (threads k t))"
    using f1 f2 by simp
  have holder2: "\<And>l'. holder (lock_tab k2 l') = (if l' = l then None else holder (lock_tab k l'))"
    using f1 f2 by simp
  have value2: "\<And>l'. sema_value (semaphore (lock_tab k2 l')) =
      (if l' = l then 1 else sema_value (semaphore (lock_tab k l')))"
    using f1 f2 zero by simp
  have dist: "\<And>t. distinct (locks (threads k t))" and sub: "\<And>t. set (locks (threads k t)) \<subseteq> L"
    using inv by (simp_all add: lock_inv_def)
  have a: "\<forall>t. set (locks (threads k2 t)) \<subseteq> L \<and> distinct (locks (threads k2 t))"
    using dist sub by (auto simp: locks2 dest: notin_set_remove1)
  have b: "\<forall>l'\<in>L. \<forall>t. (l' \<in> set (locks (threads k2 t))) = (holder (lock_tab k2 l') = Some t)"
  proof (intro ballI allI)
    fix l' t
    assume l': "l' \<in> L"
    have old: "(l' \<in> set (locks (threads k t))) = (holder (lock_tab k l') = Some t)"
      using inv l' by (simp add: lock_inv_def)
    show "(l' \<in> set (locks (threads k2 t))) = (holder (lock_tab k2 l') = Some t)"
    proof (cases "l' = l")
      case True
      then show ?thesis
        using others [of t] dist [of "cur k"] by (auto simp: locks2 holder2)
    next
      case False
      then show ?thesis
        using old by (auto simp: locks2 holder2)
    qed
  qed
  have c: "\<forall>l'\<in>L. sema_value (semaphore (lock_tab k2 l')) =
      (if holder (lock_tab k2 l') = None then 1 else 0)"
    using inv by (auto simp: value2 holder2 lock_inv_def)
  have "lock_inv L k2"
    unfolding lock_inv_def using a b c by blast
  then show ?thesis using res by blast
qed

lemma lock_inv_boot: "lock_inv {} boot"
  by (simp add: lock_inv_def boot_def new_thread_def)

lemma lock_inv_free_lock: "lock_inv {1} free_lock"
  unfolding free_lock_def using lock_inv_init [OF lock_inv_boot, of 1 "- 1"] by simp

text \<open>
  Claim C5, as stated, fails in two places. In donation mode a successful
  \<open>lock_try_acquire\<close> on a free lock makes the caller the holder and leaves the lock out
  of the caller's list of held locks. In the mode of the multilevel feedback scheduler
  \<open>lock_acquire\<close> does the same, since it inserts the lock only when \<open>thread_mlfqs\<close> is
  off.
\<close>

theorem lock_inv_try_acquire_breaks:
  "lock_inv {1} free_lock \<and> \<not> thread_mlfqs free_lock \<and>
   fst (projr (lock_try_acquire 1 free_lock)) \<and>
   holder (lock_tab (snd (projr (lock_try_acquire 1 free_lock))) 1) = Some 0 \<and>
   1 \<notin> set (locks (threads (snd (projr (lock_try_acquire 1 free_lock))) 0)) \<and>
   thread_mlfqs free_lock_mlfqs \<and>
   holder (lock_tab free_lock_mlfqs 1) = None \<and>
   1 \<notin> set (locks (threads free_lock_mlfqs 0)) \<and>
   holder (lock_tab (susp_state (projr (lock_acquire priority 8 1 free_lock_mlfqs))) 1) = Some 0 \<and>
   1 \<notin> set (locks (threads (susp_state (projr (lock_acquire priority 8 1 free_lock_mlfqs))) 0))"
proof -
  have "fst (projr (lock_try_acquire 1 free_lock)) \<and>
   holder (lock_tab (snd (projr (lock_try_acquire 1 free_lock))) 1) = Some 0 \<and>
   1 \<notin> set (locks (threads (snd (projr (lock_try_acquire 1 free_lock))) 0)) \<and>
   thread_mlfqs free_lock_mlfqs \<and>
   holder (lock_tab free_lock_mlfqs 1) = None \<and>
   1 \<notin> set (locks (threads free_lock_mlfqs 0)) \<and>
   holder (lock_tab (susp_state (projr (lock_acquire priority 8 1 free_lock_mlfqs))) 1) = Some 0 \<and>
   1 \<notin> set (locks (threads (susp_state (projr (lock_acquire priority 8 1 free_lock_mlfqs))) 0))"
    by code_simp
  moreover have "\<not> thread_mlfqs free_lock"
    by (simp add: free_lock_def lock_init_def boot_def)
  ultimately show ?thesis using lock_inv_free_lock by blast
qed

text \<open>
  Claim C5, amended. In donation mode, in every state that satisfies the invariant of the
  initialised locks, a lock is in a thread's list of held locks exactly when that thread
  is its holder, and no lock is in the lists of two threads. The invariant holds after
  \<open>lock_init\<close> of a lock that was not initialised, after \<open>lock_acquire\<close> (suspended or
  returned, at its call or when it resumes), after a failed \<open>lock_try_acquire\<close>, and
  after \<open>lock_release\<close> by the holder when its \<open>sema_up\<close> has not yielded;
  \<open>lock_release\<close> by the holder fails no assertion and finds the lock in the caller's
  list.
\<close>

theorem lock_inv_preserved:
  assumes inv: "lock_inv L k" and mlfqs: "\<not> thread_mlfqs k"
  shows "(\<forall>l\<in>L. \<forall>t. (l \<in> set (locks (threads k t))) = (holder (lock_tab k l) = Some t)) \<and>
     (\<forall>l\<in>L. \<forall>t t'. l \<in> set (locks (threads k t)) \<longrightarrow> l \<in> set (locks (threads k t')) \<longrightarrow> t = t') \<and>
     (\<forall>l. l \<notin> L \<longrightarrow> lock_inv (insert l L) (lock_init PRIORITY_FAKE l k)) \<and>
     (\<forall>l\<in>L. \<forall>r. lock_acquire hp LOCK_LEVEL l k = Inr r \<longrightarrow> lock_inv L (susp_state r)) \<and>
     (\<forall>l\<in>L. lock_inv L (susp_state (lock_acquire_down hp l k))) \<and>
     (\<forall>l\<in>L. lock_held_by_current_thread l k \<longrightarrow>
        (\<exists>k' yielded. lock_release PRIORITY_FAKE l k = Inr (k', yielded) \<and>
           (\<not> yielded \<longrightarrow> lock_inv L k'))) \<and>
     (\<forall>l\<in>L. \<forall>k'. lock_try_acquire l k = Inr (False, k') \<longrightarrow> lock_inv L k')"
proof (intro conjI)
  show iff: "\<forall>l\<in>L. \<forall>t. (l \<in> set (locks (threads k t))) = (holder (lock_tab k l) = Some t)"
    using inv by (simp add: lock_inv_def)
  show "\<forall>l\<in>L. \<forall>t t'. l \<in> set (locks (threads k t)) \<longrightarrow> l \<in> set (locks (threads k t')) \<longrightarrow> t = t'"
    using iff by auto
  show "\<forall>l. l \<notin> L \<longrightarrow> lock_inv (insert l L) (lock_init PRIORITY_FAKE l k)"
    using inv by (simp add: lock_inv_init)
  show "\<forall>l\<in>L. \<forall>r. lock_acquire hp LOCK_LEVEL l k = Inr r \<longrightarrow> lock_inv L (susp_state r)"
    using inv mlfqs by (blast intro: lock_inv_acquire)
  show "\<forall>l\<in>L. lock_inv L (susp_state (lock_acquire_down hp l k))"
    using inv mlfqs by (simp add: lock_inv_down)
  show "\<forall>l\<in>L. lock_held_by_current_thread l k \<longrightarrow>
        (\<exists>k' yielded. lock_release PRIORITY_FAKE l k = Inr (k', yielded) \<and>
           (\<not> yielded \<longrightarrow> lock_inv L k'))"
    using inv mlfqs lock_inv_release [of L k _ PRIORITY_FAKE] by blast
  show "\<forall>l\<in>L. \<forall>k'. lock_try_acquire l k = Inr (False, k') \<longrightarrow> lock_inv L k'"
  proof (intro ballI allI impI)
    fix l k'
    assume "lock_try_acquire l k = Inr (False, k')"
    then have "k' = k"
      by (auto simp: lock_try_acquire_def sema_try_down_def Let_def split: if_splits)
    then show "lock_inv L k'" using inv by simp
  qed
qed

theorem lock_inv_preserved_witness:
  "lock_inv {1} free_lock \<and> \<not> thread_mlfqs free_lock \<and>
   (\<exists>r. lock_acquire priority 8 1 free_lock = Inr r \<and> lock_inv {1} (susp_state r) \<and>
      holder (lock_tab (susp_state r) 1) = Some 0 \<and> 1 \<in> set (locks (threads (susp_state r) 0)))"
proof -
  have m: "\<not> thread_mlfqs free_lock"
    by (simp add: free_lock_def lock_init_def boot_def)
  have ok: "\<not> isl (lock_acquire priority 8 1 free_lock)"
    and h: "holder (lock_tab (susp_state (projr (lock_acquire priority 8 1 free_lock))) 1) = Some 0"
    and mem: "1 \<in> set (locks (threads (susp_state (projr (lock_acquire priority 8 1 free_lock))) 0))"
    by code_simp+
  from ok have r: "lock_acquire priority 8 1 free_lock = Inr (projr (lock_acquire priority 8 1 free_lock))"
    by (cases "lock_acquire priority 8 1 free_lock") simp_all
  have "lock_inv {1} (susp_state (projr (lock_acquire priority 8 1 free_lock)))"
    using lock_inv_preserved [OF lock_inv_free_lock m, where hp = priority and LOCK_LEVEL = 8 and PRIORITY_FAKE = "- 1"] r by blast
  then show ?thesis
    using lock_inv_free_lock m r h mem by blast
qed

section \<open>cond_signal\<close>

text \<open>
  \<open>cond_wait\<close> inserts its wait-record with \<open>priority_semaphore_compare\<close>, and the
  \<^verbatim>\<open>highest_priority\<close> of a queued record is never written again: the queue of a
  condition variable is in descending order after \<open>cond_init\<close> and stays so.
\<close>

lemma sorted_list_insert_ordered:
  "sorted_wrt (\<lambda>a b. a \<ge> b) (map f xs) \<Longrightarrow>
   sorted_wrt (\<lambda>a b. a \<ge> b)
     (map f (list_insert_ordered xs x (\<lambda>a b. priority_semaphore_compare (f a) (f b))))"
  for f :: "'a \<Rightarrow> int"
  by (induction xs) (auto simp: set_list_insert_ordered priority_semaphore_compare_def)

lemma cond_sorted_init: "cond_sorted c (cond_init c k)"
  by (simp add: cond_sorted_def cond_init_def)

lemma cond_sorted_enqueue:
  assumes "cond_sorted c k" and "w \<notin> set (cond_waiters (cond_tab k c))"
    and "cond_wait_enqueue c l w k = Inr k1"
  shows "cond_sorted c k1"
proof -
  define e where "e = (elem_tab k)(w := \<lparr>elem_semaphore = sema_init 0,
      highest_priority = priority (threads k (cur k))\<rparr>)"
  define ws where "ws = cond_waiters (cond_tab k c)"
  have k1: "cond_waiters (cond_tab k1 c) =
      list_insert_ordered ws w
        (\<lambda>a b. priority_semaphore_compare (highest_priority (e a)) (highest_priority (e b)))"
    and e1: "elem_tab k1 = e"
  proof -
    have pre: "\<not> (intr_context k \<or> \<not> lock_held_by_current_thread l k)"
      using assms(3) by (simp add: cond_wait_enqueue_def split: if_splits)
    have "k1 = k\<lparr>elem_tab := e,
        cond_tab := (cond_tab k)
          (c := (cond_tab k c)
             \<lparr>cond_waiters := list_insert_ordered ws w
                (\<lambda>a b. priority_semaphore_compare (highest_priority (e a)) (highest_priority (e b)))\<rparr>)\<rparr>"
      using assms(3) pre unfolding cond_wait_enqueue_def Let_def e_def ws_def by simp
    then show "cond_waiters (cond_tab k1 c) =
      list_insert_ordered ws w
        (\<lambda>a b. priority_semaphore_compare (highest_priority (e a)) (highest_priority (e b)))"
      and "elem_tab k1 = e"
      by simp_all
  qed
  have same: "map (\<lambda>a. highest_priority (e a)) ws = map (\<lambda>a. highest_priority (elem_tab k a)) ws"
    using assms(2) by (auto simp: e_def ws_def)
  have "sorted_wrt (\<lambda>a b. a \<ge> b) (map (\<lambda>a. highest_priority (e a)) ws)"
    using assms(1) unfolding same by (simp add: cond_sorted_def ws_def)
  then have "sorted_wrt (\<lambda>a b. a \<ge> b) (map (\<lambda>a. highest_priority (e a))
      (list_insert_ordered ws w
        (\<lambda>a b. priority_semaphore_compare (highest_priority (e a)) (highest_priority (e b)))))"
    by (rule sorted_list_insert_ordered)
  moreover have "distinct (list_insert_ordered ws w
        (\<lambda>a b. priority_semaphore_compare (highest_priority (e a)) (highest_priority (e b))))"
    using assms(1,2) by (simp add: distinct_list_insert_ordered cond_sorted_def ws_def)
  ultimately show ?thesis
    by (simp add: cond_sorted_def k1 e1)
qed

text \<open>
  Claim C7. Let the caller hold the lock, outside an interrupt handler, and let the queue
  of the condition variable be in descending order of \<^verbatim>\<open>highest_priority\<close>.
  \<open>cond_signal\<close> fails no assertion. With an empty queue it returns the state it was
  given and does not yield. Otherwise it removes the front record, whose
  \<^verbatim>\<open>highest_priority\<close> is the greatest of the queue, and leaves the other records queued in
  their order; threads, the record's semaphore and the yield are those of one \<open>sema_up\<close>
  on the record's semaphore, whose value is one more than before; no other record, no
  other condition variable and no lock changes; and the queue is still in descending
  order.
\<close>

theorem cond_signal_wakes_highest:
  assumes intr: "\<not> intr_context k" and held: "lock_held_by_current_thread l k"
    and sorted: "cond_sorted c k"
  shows "\<exists>k' yielded. cond_signal c l k = Inr (k', yielded) \<and> cond_sorted c k' \<and>
     (case cond_waiters (cond_tab k c) of
        [] \<Rightarrow> k' = k \<and> \<not> yielded
      | w # ws \<Rightarrow>
          cond_waiters (cond_tab k' c) = ws \<and> w \<notin> set ws \<and>
          (\<forall>w'\<in>set (w # ws). highest_priority (elem_tab k w') \<le> highest_priority (elem_tab k w)) \<and>
          (threads k', elem_semaphore (elem_tab k' w), yielded) =
             sema_up (cur k) (threads k) (elem_semaphore (elem_tab k w)) \<and>
          sema_value (elem_semaphore (elem_tab k' w)) = sema_value (elem_semaphore (elem_tab k w)) + 1 \<and>
          highest_priority (elem_tab k' w) = highest_priority (elem_tab k w) \<and>
          (\<forall>w'. w' \<noteq> w \<longrightarrow> elem_tab k' w' = elem_tab k w') \<and>
          (\<forall>c'. c' \<noteq> c \<longrightarrow> cond_tab k' c' = cond_tab k c') \<and>
          lock_tab k' = lock_tab k \<and> cur k' = cur k)"
proof (cases "cond_waiters (cond_tab k c)")
  case Nil
  then show ?thesis
    using intr held sorted by (auto simp: cond_signal_def)
next
  case (Cons w ws)
  obtain ths s y where up: "sema_up (cur k) (threads k) (elem_semaphore (elem_tab k w)) = (ths, s, y)"
    by (cases "sema_up (cur k) (threads k) (elem_semaphore (elem_tab k w))") auto
  define k' where "k' = k\<lparr>cond_tab := (cond_tab k)(c := (cond_tab k c)\<lparr>cond_waiters := ws\<rparr>),
      threads := ths,
      elem_tab := (elem_tab k)(w := (elem_tab k w)\<lparr>elem_semaphore := s\<rparr>)\<rparr>"
  have res: "cond_signal c l k = Inr (k', y)"
    using intr held Cons up by (simp add: cond_signal_def Let_def k'_def)
  have sv: "sema_value s = sema_value (elem_semaphore (elem_tab k w)) + 1"
    using up by (auto simp: sema_up_eq)
  have hp: "\<And>w'. highest_priority (elem_tab k' w') = highest_priority (elem_tab k w')"
    by (simp add: k'_def)
  have top: "\<forall>w'\<in>set (w # ws). highest_priority (elem_tab k w') \<le> highest_priority (elem_tab k w)"
    using sorted Cons by (auto simp: cond_sorted_def)
  have fresh: "w \<notin> set ws" and dist: "distinct ws"
    using sorted Cons by (auto simp: cond_sorted_def)
  have "sorted_wrt (\<lambda>a b. a \<ge> b) (map (\<lambda>a. highest_priority (elem_tab k a)) ws)"
    using sorted Cons by (simp add: cond_sorted_def)
  then have inv: "cond_sorted c k'"
    using dist by (simp add: cond_sorted_def hp) (simp add: k'_def)
  show ?thesis
    using res inv Cons up sv top fresh by (simp add: k'_def)
qed

theorem cond_signal_wakes_highest_witness:
  "\<not> intr_context signal_k5 \<and> lock_held_by_current_thread 1 signal_k5 \<and>
   cond_sorted 1 signal_k5 \<and> cond_waiters (cond_tab signal_k5 1) = [12, 11] \<and>
   highest_priority (elem_tab signal_k5 12) = 40 \<and> highest_priority (elem_tab signal_k5 11) = 20 \<and>
   (\<exists>k' yielded. cond_signal 1 1 signal_k5 = Inr (k', yielded) \<and>
      cond_waiters (cond_tab k' 1) = [11] \<and>
      sema_value (elem_semaphore (elem_tab k' 12)) = 1 \<and>
      elem_tab k' 11 = elem_tab signal_k5 11)"
proof -
  have pre: "\<not> intr_context signal_k5" "lock_held_by_current_thread 1 signal_k5"
    "cond_sorted 1 signal_k5"
    by code_simp+
  have ws: "cond_waiters (cond_tab signal_k5 1) = [12, 11]"
    and hp: "highest_priority (elem_tab signal_k5 12) = 40" "highest_priority (elem_tab signal_k5 11) = 20"
    and zero: "sema_value (elem_semaphore (elem_tab signal_k5 12)) = 0"
    by code_simp+
  show ?thesis
    using cond_signal_wakes_highest [OF pre] pre ws hp zero by auto
qed

section \<open>cond_wait\<close>

lemma lock_release_rest_conds:
  assumes "lock_release_rest PF c l k1 = Inr k2"
  shows "cond_tab k2 = cond_tab k1 \<and> elem_tab k2 = elem_tab k1 \<and> cur k2 = cur k1"
  using assms
  by (auto simp: lock_release_rest_def Let_def split: if_splits list.splits)

lemma cond_wait_enqueue_fields:
  assumes "\<not> intr_context k" and "lock_held_by_current_thread l k"
  shows "\<exists>k1. cond_wait_enqueue c l w k = Inr k1 \<and>
     set (cond_waiters (cond_tab k1 c)) = insert w (set (cond_waiters (cond_tab k c))) \<and>
     elem_tab k1 w = \<lparr>elem_semaphore = sema_init 0, highest_priority = priority (threads k (cur k))\<rparr> \<and>
     lock_tab k1 = lock_tab k \<and> threads k1 = threads k \<and> cur k1 = cur k \<and>
     intr_context k1 = intr_context k \<and> thread_mlfqs k1 = thread_mlfqs k"
  using assms by (simp add: cond_wait_enqueue_def Let_def set_list_insert_ordered)

lemma cond_signal_before_sleep:
  assumes "\<not> intr_context k'" and "lock_held_by_current_thread l k'"
    and "cond_waiters (cond_tab k' c) = [w]"
    and "elem_semaphore (elem_tab k' w) = sema_init 0"
  shows "\<exists>k'' yielded. cond_signal c l k' = Inr (k'', yielded) \<and>
     cond_waiters (cond_tab k'' c) = [] \<and>
     (\<exists>k4. cond_wait_sleep hp w (k''\<lparr>cur := t\<rparr>) = Returned k4)"
  using assms
  by (auto simp: cond_signal_def Let_def sema_up_eq sema_init_def cond_wait_sleep_def
      sema_down_loop_def)

text \<open>
  Claim C9. A \<open>cond_wait\<close> by the holder of the lock, outside an interrupt handler,
  first inserts its wait-record: in the state before \<open>lock_release\<close> is called the record
  is queued and the caller still holds the lock. \<open>cond_wait\<close> goes on from that state with
  \<open>lock_release\<close> and the \<open>sema_down\<close> on the record's semaphore. The record is queued
  in the state in which \<open>lock_release\<close> has cleared the holder and run its \<open>sema_up\<close>
  (where other threads run if it yields), in the state at the end of \<open>lock_release\<close>, and
  in the state in which the caller is suspended on the record's semaphore. And a signal is
  not lost: when a holder of the lock signals while the record is the only one queued and
  the caller has not yet reached its \<open>sema_down\<close>, the record is taken from the queue and
  that \<open>sema_down\<close> of the caller (thread \<open>t\<close>) returns without blocking.
\<close>

theorem cond_wait_enqueues_before_release:
  assumes intr: "\<not> intr_context k" and held: "lock_held_by_current_thread l k"
  shows "\<exists>k1. cond_wait_enqueue c l w k = Inr k1 \<and>
      w \<in> set (cond_waiters (cond_tab k1 c)) \<and> lock_held_by_current_thread l k1 \<and>
      elem_tab k1 w = \<lparr>elem_semaphore = sema_init 0, highest_priority = priority (threads k (cur k))\<rparr> \<and>
      cond_wait hp PRIORITY_FAKE LOCK_LEVEL c l w k =
        (case lock_release PRIORITY_FAKE l k1 of
           Inl e \<Rightarrow> Inl e
         | Inr (k2, yielded) \<Rightarrow>
             (case cond_wait_sleep hp w k2 of
                Blocked k3 \<Rightarrow> Inr (Blocked k3)
              | Returned k3 \<Rightarrow> lock_acquire hp LOCK_LEVEL l k3)) \<and>
      (\<exists>k2 yielded. lock_release_up l k1 = Inr (k2, yielded) \<and>
         holder (lock_tab k2 l) = None \<and>
         w \<in> set (cond_waiters (cond_tab k2 c)) \<and>
         (\<forall>k3. lock_release_rest PRIORITY_FAKE (cur k) l k2 = Inr k3 \<longrightarrow>
            w \<in> set (cond_waiters (cond_tab k3 c)) \<and>
            (\<exists>k4. cond_wait_sleep hp w k3 = Blocked k4 \<and>
               w \<in> set (cond_waiters (cond_tab k4 c)) \<and>
               status (threads k4 (cur k)) = THREAD_BLOCKED \<and>
               waiters (elem_semaphore (elem_tab k4 w)) = [cur k]))) \<and>
      (\<forall>k' t. \<not> intr_context k' \<and> lock_held_by_current_thread l k' \<and>
           cond_waiters (cond_tab k' c) = [w] \<and> elem_tab k' w = elem_tab k1 w \<longrightarrow>
         (\<exists>k'' yielded. cond_signal c l k' = Inr (k'', yielded) \<and>
            cond_waiters (cond_tab k'' c) = [] \<and>
            (\<exists>k4. cond_wait_sleep hp w (k''\<lparr>cur := t\<rparr>) = Returned k4)))"
proof -
  obtain k1 where enq: "cond_wait_enqueue c l w k = Inr k1"
    and ws1: "set (cond_waiters (cond_tab k1 c)) = insert w (set (cond_waiters (cond_tab k c)))"
    and e1: "elem_tab k1 w = \<lparr>elem_semaphore = sema_init 0, highest_priority = priority (threads k (cur k))\<rparr>"
    and same1: "lock_tab k1 = lock_tab k" "cur k1 = cur k"
    using cond_wait_enqueue_fields [OF intr held, of c w] by blast
  have held1: "lock_held_by_current_thread l k1"
    using held by (simp add: lock_held_by_current_thread_def same1)
  obtain k2 y where up: "lock_release_up l k1 = Inr (k2, y)"
    using held1 by (cases "sema_up (cur k1) (threads k1) (semaphore (lock_tab k1 l))")
      (simp add: lock_release_up_def Let_def)
  note f2 = lock_release_up_fields [OF up]
  have rest: "w \<in> set (cond_waiters (cond_tab k3 c)) \<and>
      (\<exists>k4. cond_wait_sleep hp w k3 = Blocked k4 \<and>
         w \<in> set (cond_waiters (cond_tab k4 c)) \<and>
         status (threads k4 (cur k)) = THREAD_BLOCKED \<and>
         waiters (elem_semaphore (elem_tab k4 w)) = [cur k])"
    if k3: "lock_release_rest PRIORITY_FAKE (cur k) l k2 = Inr k3" for k3
  proof -
    note f3 = lock_release_rest_conds [OF k3]
    have c3: "cond_tab k3 = cond_tab k1" and e3: "elem_tab k3 w = elem_tab k1 w" and cur3: "cur k3 = cur k"
      using f2 f3 same1 by simp_all
    show ?thesis
      by (simp add: c3 ws1 cond_wait_sleep_def sema_down_loop_def e3 e1 sema_init_def cur3 thread_block_def)
  qed
  have comp: "cond_wait hp PRIORITY_FAKE LOCK_LEVEL c l w k =
        (case lock_release PRIORITY_FAKE l k1 of
           Inl e \<Rightarrow> Inl e
         | Inr (k2, yielded) \<Rightarrow>
             (case cond_wait_sleep hp w k2 of
                Blocked k3 \<Rightarrow> Inr (Blocked k3)
              | Returned k3 \<Rightarrow> lock_acquire hp LOCK_LEVEL l k3))"
    by (simp add: cond_wait_def enq)
  have queued2: "w \<in> set (cond_waiters (cond_tab k2 c))"
    using f2 ws1 by simp
  have kept: "\<exists>k'' yielded. cond_signal c l k' = Inr (k'', yielded) \<and>
        cond_waiters (cond_tab k'' c) = [] \<and>
        (\<exists>k4. cond_wait_sleep hp w (k''\<lparr>cur := t\<rparr>) = Returned k4)"
    if "\<not> intr_context k' \<and> lock_held_by_current_thread l k' \<and>
        cond_waiters (cond_tab k' c) = [w] \<and> elem_tab k' w = elem_tab k1 w" for k' t
    using that e1 by (intro cond_signal_before_sleep) simp_all
  have part1: "\<exists>k2 yielded. lock_release_up l k1 = Inr (k2, yielded) \<and>
         holder (lock_tab k2 l) = None \<and>
         w \<in> set (cond_waiters (cond_tab k2 c)) \<and>
         (\<forall>k3. lock_release_rest PRIORITY_FAKE (cur k) l k2 = Inr k3 \<longrightarrow>
            w \<in> set (cond_waiters (cond_tab k3 c)) \<and>
            (\<exists>k4. cond_wait_sleep hp w k3 = Blocked k4 \<and>
               w \<in> set (cond_waiters (cond_tab k4 c)) \<and>
               status (threads k4 (cur k)) = THREAD_BLOCKED \<and>
               waiters (elem_semaphore (elem_tab k4 w)) = [cur k]))"
    using up f2 queued2 rest by blast
  have queued1: "w \<in> set (cond_waiters (cond_tab k1 c))"
    using ws1 by simp
  show ?thesis
    using enq queued1 held1 e1 comp part1 kept by blast
qed

theorem cond_wait_enqueues_before_release_witness:
  "\<not> intr_context signal_k1 \<and> lock_held_by_current_thread 1 signal_k1 \<and>
   cond_waiters (cond_tab signal_k1 1) = [] \<and>
   (\<exists>k1. cond_wait_enqueue 1 1 11 signal_k1 = Inr k1 \<and>
      11 \<in> set (cond_waiters (cond_tab k1 1)) \<and> lock_held_by_current_thread 1 k1) \<and>
   cond_wait priority (- 1) 8 1 1 11 signal_k1 = Inr (Blocked signal_k2) \<and>
   cond_waiters (cond_tab signal_k2 1) = [11] \<and>
   holder (lock_tab signal_k2 1) = None \<and>
   status (threads signal_k2 1) = THREAD_BLOCKED"
proof -
  have pre: "\<not> intr_context signal_k1" "lock_held_by_current_thread 1 signal_k1"
    by code_simp+
  have blocked: "\<not> isl (cond_wait priority (- 1) 8 1 1 11 signal_k1)"
      "(case projr (cond_wait priority (- 1) 8 1 1 11 signal_k1) of Blocked k \<Rightarrow> True | Returned k \<Rightarrow> False)"
    by code_simp+
  then have res: "cond_wait priority (- 1) 8 1 1 11 signal_k1 = Inr (Blocked signal_k2)"
    unfolding signal_k2_def
    by (cases "cond_wait priority (- 1) 8 1 1 11 signal_k1"; cases "projr (cond_wait priority (- 1) 8 1 1 11 signal_k1)")
      simp_all
  have after: "cond_waiters (cond_tab signal_k1 1) = []"
      "cond_waiters (cond_tab signal_k2 1) = [11]"
      "holder (lock_tab signal_k2 1) = None"
      "status (threads signal_k2 1) = THREAD_BLOCKED"
    by code_simp+
  obtain k1 where "cond_wait_enqueue 1 1 11 signal_k1 = Inr k1"
      "11 \<in> set (cond_waiters (cond_tab k1 1))" "lock_held_by_current_thread 1 k1"
    using cond_wait_enqueues_before_release [OF pre, where c = 1 and w = 11 and hp = priority and PRIORITY_FAKE = "- 1" and LOCK_LEVEL = 8] by blast
  then show ?thesis
    using pre res after by blast
qed

section \<open>The order of a semaphore's queue\<close>

text \<open>
  What \<open>sema_down\<close> keeps: when the queue is in descending order of the word the
  comparator reads, it still is after the caller has been inserted.
\<close>

lemma sema_down_loop_keeps_order:
  assumes "sema_down_loop hp c ths s = Blocked (ths', s')"
    and "sorted_wrt (\<lambda>a b. a \<ge> b) (map (\<lambda>t. hp (ths t)) (waiters s))"
  shows "sorted_wrt (\<lambda>a b. a \<ge> b) (map (\<lambda>t. hp (ths t)) (waiters s')) \<and>
     set (waiters s') = insert c (set (waiters s))"
  using assms sorted_list_insert_ordered [of "\<lambda>t. hp (ths t)" "waiters s" c]
  by (auto simp: sema_down_loop_def set_list_insert_ordered split: if_splits)

text \<open>
  Claim C1 at a failing input. In the run of \<open>queue_k1\<close> to \<open>queue_s4\<close> the comparator
  reads the priority of a thread. Thread 1 is queued with priority 5 and thread 2 with
  priority 3. After the donation of thread 3 has raised thread 1 to 10, thread 4
  (priority 7) is inserted behind thread 1: the queue is 1, 4, 2, and the priorities the
  threads had when they were queued are 5, 7, 3. After the donation of thread 5 has raised
  thread 2 to 20, thread 6 (priority 1) is queued at the back: the queue is 1, 4, 2, 6 with
  the current priorities 10, 7, 20, 1. The list that results from the enqueue is in
  descending order neither of the priorities at the moment of queuing nor of the current
  priorities.
\<close>

theorem sema_down_queue_not_ordered:
  "priority (threads queue_k3 1) = 5 \<and> waiters (snd queue_s1) = [1] \<and>
   priority (fst queue_s1 2) = 3 \<and> waiters (snd queue_s2) = [1, 2] \<and>
   priority (threads queue_k4 1) = 10 \<and>
   priority (threads queue_k4 4) = 7 \<and> waiters (snd queue_s3) = [1, 4, 2] \<and>
   priority (threads queue_k5 2) = 20 \<and>
   priority (threads queue_k5 6) = 1 \<and>
   (case sema_down_loop priority 6 (threads queue_k5) (snd queue_s3) of
      Blocked p \<Rightarrow> True | Returned p \<Rightarrow> False) \<and>
   waiters (snd queue_s4) = [1, 4, 2, 6] \<and>
   priority (fst queue_s4 1) = 10 \<and> priority (fst queue_s4 4) = 7 \<and>
   priority (fst queue_s4 2) = 20 \<and> priority (fst queue_s4 6) = 1"
  by code_simp

section \<open>The preemption test of sema_up\<close>

text \<open>
  Claim C2 at a failing input. In the run of \<open>wake_k1\<close> to \<open>wake_k3\<close> every step ends as
  described there, and the semaphore's queue then holds thread 1 (priority 5) in front of
  thread 2 (priority 10 after the donation). Thread 4 (priority 7) calls \<open>sema_up\<close>: both
  threads are made ready and the queue is emptied, but \<open>sema_up\<close> compares the caller with
  thread 1, the front of the queue, and does not yield, although the drained thread of the
  highest priority, thread 2, is ready and has a priority above the caller's.
\<close>

theorem sema_up_front_not_highest:
  "(case sema_down_loop priority 1 (threads wake_k1) (sema_init 0) of
      Blocked p \<Rightarrow> True | Returned p \<Rightarrow> False) \<and>
   (case lock_acquire priority 8 1 (wake_k1\<lparr>threads := fst wake_s1, cur := 2\<rparr>) of
      Inr (Returned k) \<Rightarrow> True | Inr (Blocked k) \<Rightarrow> False | Inl e \<Rightarrow> False) \<and>
   (case sema_down_loop priority 2 (threads wake_k2) (snd wake_s1) of
      Blocked p \<Rightarrow> True | Returned p \<Rightarrow> False) \<and>
   (case lock_acquire priority 8 1 (wake_k2\<lparr>threads := fst wake_s2, cur := 3\<rparr>) of
      Inr (Blocked k) \<Rightarrow> True | Inr (Returned k) \<Rightarrow> False | Inl e \<Rightarrow> False) \<and>
   waiters (snd wake_s2) = [1, 2] \<and>
   priority (threads wake_k3 1) = 5 \<and>
   priority (threads wake_k3 2) = 10 \<and>
   priority (threads wake_k3 4) = 7 \<and>
   status (fst (sema_up 4 (threads wake_k3) (snd wake_s2)) 1) = THREAD_READY \<and>
   status (fst (sema_up 4 (threads wake_k3) (snd wake_s2)) 2) = THREAD_READY \<and>
   waiters (fst (snd (sema_up 4 (threads wake_k3) (snd wake_s2)))) = [] \<and>
   snd (snd (sema_up 4 (threads wake_k3) (snd wake_s2))) = False"
  by code_simp

section \<open>The priority after lock_release\<close>

text \<open>
  What \<open>lock_release\<close> does to the caller's priority in donation mode: with no lock left
  in the list the donated flag is cleared and the base priority restored; otherwise the
  priority comes from the lock at the front of the list, whichever lock that is.
\<close>

lemma lock_release_rest_priority:
  assumes "\<not> thread_mlfqs k" and "cur k = c" and "l \<in> set (locks (threads k c))"
  shows "\<exists>k'. lock_release_rest PF c l k = Inr k' \<and>
     locks (threads k' c) = remove1 l (locks (threads k c)) \<and>
     (case locks (threads k' c) of
        [] \<Rightarrow> \<not> is_donated (threads k' c) \<and> priority (threads k' c) = priority_original (threads k c)
      | lock_first # _ \<Rightarrow>
          priority (threads k' c) =
            (if priority_lock (lock_tab k' lock_first) \<noteq> PF
             then priority_lock (lock_tab k' lock_first)
             else priority_original (threads k c)))"
  using assms
  by (auto simp: lock_release_rest_def Let_def thread_set_priority_def thread_given_set_priority_def
      split: list.splits)

text \<open>
  Claim C4 at a failing input. In the run of \<open>held_k0\<close> to \<open>held_k4\<close>, thread 1 holds
  the locks 3, 2 and 1 (its list in this order) with the priority 50 donated by thread 3,
  and the locks 1 and 2 have the \<open>priority_lock\<close> 50 and 30. After thread 1 has released
  lock 3 it still holds lock 2 and lock 1, on which thread 3 waits with priority 50; the
  held lock with the highest \<open>priority_lock\<close> is lock 1, but \<open>lock_release\<close> takes the
  front of the list, lock 2, and sets the priority of thread 1 to 30.
\<close>

theorem lock_release_front_not_highest:
  "locks (threads held_k3 1) = [3, 2, 1] \<and>
   priority (threads held_k3 1) = 50 \<and>
   priority_original (threads held_k3 1) = 10 \<and>
   priority_lock (lock_tab held_k3 1) = 50 \<and>
   priority_lock (lock_tab held_k3 2) = 30 \<and>
   (case lock_release (- 1) 3 (held_k3\<lparr>cur := 1\<rparr>) of Inr p \<Rightarrow> True | Inl e \<Rightarrow> False) \<and>
   locks (threads held_k4 1) = [2, 1] \<and>
   holder (lock_tab held_k4 1) = Some 1 \<and>
   holder (lock_tab held_k4 2) = Some 1 \<and>
   priority_lock (lock_tab held_k4 1) = 50 \<and>
   priority_lock (lock_tab held_k4 2) = 30 \<and>
   waiters (semaphore (lock_tab held_k4 1)) = [3] \<and>
   priority (threads held_k4 3) = 50 \<and>
   priority (threads held_k4 1) = 30"
  by code_simp

section \<open>Who gets the unit after sema_up\<close>




section \<open>The counter of a semaphore\<close>

text \<open>
  Claim C6, as stated, fails: the counter is an \<^verbatim>\<open>unsigned\<close> and \<open>sema_up\<close> increments it
  without a bound, so that one \<open>sema_up\<close> after \<open>sema_init\<close> with the largest value leaves
  0, which is not the initial value plus the one completed up.
\<close>

theorem sema_value_wraps:
  "uint (sema_value (run_sema (sema_steps priority [Up 0] (sema_start 4294967295 (threads boot))))) = 0 \<and>
   uint (sema_value (run_sema (sema_steps priority [Up 0] (sema_start 4294967295 (threads boot))))) \<noteq>
   uint (4294967295 :: 32 word)
     + int (completed_ups (sema_steps priority [Up 0] (sema_start 4294967295 (threads boot))))
     - int (completed_downs (sema_steps priority [Up 0] (sema_start 4294967295 (threads boot))))"
  by (simp add: sema_start_def sema_init_def sema_up_eq)

text \<open>
  Claim C6, amended. After every sequence of operations on a semaphore that started with
  \<open>sema_init v\<close>, the value is at least zero and equals the initial value plus the number
  of completed ups minus the number of completed downs (those of \<open>sema_down\<close> and the
  successful ones of \<open>sema_try_down\<close>) modulo \<open>2 ^ 32\<close>; the two are equal as
  integers whenever the initial value plus the number of completed ups is below
  \<open>2 ^ 32\<close>. A thread blocked inside \<open>sema_down\<close> has completed no down, so this holds
  at the quiescent points in particular.
\<close>

theorem sema_value_count:
  "0 \<le> uint (sema_value (run_sema (sema_steps hp ops (sema_start v ths)))) \<and>
   uint (sema_value (run_sema (sema_steps hp ops (sema_start v ths)))) =
     (uint v + int (completed_ups (sema_steps hp ops (sema_start v ths)))
        - int (completed_downs (sema_steps hp ops (sema_start v ths)))) mod 2 ^ 32 \<and>
   (uint v + int (completed_ups (sema_steps hp ops (sema_start v ths))) < 2 ^ 32 \<longrightarrow>
    uint (sema_value (run_sema (sema_steps hp ops (sema_start v ths)))) =
      uint v + int (completed_ups (sema_steps hp ops (sema_start v ths)))
        - int (completed_downs (sema_steps hp ops (sema_start v ths))))"
proof -
  have count: "sema_count v (sema_start v ths)"
    using uint_lt2p [of v] by (simp add: sema_count_def sema_start_def sema_init_def)
  have exact: "sema_exact v (sema_start v ths)"
    by (simp add: sema_exact_def sema_start_def sema_init_def)
  show ?thesis
    using sema_steps_count [OF count, of hp ops] sema_steps_exact [OF exact, of hp ops]
    by (simp add: sema_count_def sema_exact_def)
qed

theorem sema_value_count_witness:
  "uint (0 :: 32 word) + int (completed_ups (sema_steps priority [Down 1, Up 0, Down 1] (sema_start 0 (threads boot)))) < 2 ^ 32 \<and>
   completed_ups (sema_steps priority [Down 1, Up 0, Down 1] (sema_start 0 (threads boot))) = 1 \<and>
   completed_downs (sema_steps priority [Down 1, Up 0, Down 1] (sema_start 0 (threads boot))) = 1 \<and>
   uint (sema_value (run_sema (sema_steps priority [Down 1, Up 0, Down 1] (sema_start 0 (threads boot))))) = 0"
proof -
  define r where "r = sema_steps priority [Down 1, Up 0, Down 1] (sema_start 0 (threads boot))"
  have ups: "completed_ups r = 1"
    by (simp add: r_def sema_start_def sema_init_def sema_down_loop_def sema_up_eq)
  have downs: "completed_downs r = 1"
    by (simp add: r_def sema_start_def sema_init_def sema_down_loop_def sema_up_eq)
  have "uint (0 :: 32 word) + int (completed_ups r) < 2 ^ 32 \<longrightarrow>
      uint (sema_value (run_sema r)) = uint (0 :: 32 word) + int (completed_ups r) - int (completed_downs r)"
    using sema_value_count [of priority "[Down 1, Up 0, Down 1]" 0 "threads boot"]
    unfolding r_def by blast
  then have "uint (sema_value (run_sema r)) = 0"
    by (simp add: ups downs)
  then show ?thesis
    using ups downs unfolding r_def by simp
qed

section \<open>lock_try_acquire\<close>

text \<open>
  Claim C10. A call of \<open>lock_try_acquire\<close> by a thread that does not hold the lock never
  fails an assertion; it succeeds exactly when the value of the lock's semaphore is not
  zero. A successful call decrements that value by one (from 1 to 0) and makes the caller
  the holder, and changes nothing else: the thread table (priorities, base priorities,
  donated flags, awaited locks, lists of held locks) is the same, so the lock is not
  inserted into the caller's list of held locks, and the lock's waiters and
  \<open>priority_lock\<close> are the same. A failed call returns the state it was given.
\<close>

theorem lock_try_acquire_frame:
  "\<not> lock_held_by_current_thread l k \<Longrightarrow>
   (case lock_try_acquire l k of
      Inl e \<Rightarrow> False
    | Inr (success, k') \<Rightarrow>
        (success \<longleftrightarrow> sema_value (semaphore (lock_tab k l)) \<noteq> 0) \<and>
        (if success then
           threads k' = threads k \<and> elem_tab k' = elem_tab k \<and> cond_tab k' = cond_tab k \<and>
           cur k' = cur k \<and> intr_context k' = intr_context k \<and> thread_mlfqs k' = thread_mlfqs k \<and>
           (\<forall>l'. l' \<noteq> l \<longrightarrow> lock_tab k' l' = lock_tab k l') \<and>
           holder (lock_tab k' l) = Some (cur k) \<and>
           sema_value (semaphore (lock_tab k' l)) = sema_value (semaphore (lock_tab k l)) - 1 \<and>
           (sema_value (semaphore (lock_tab k l)) = 1 \<longrightarrow> sema_value (semaphore (lock_tab k' l)) = 0) \<and>
           waiters (semaphore (lock_tab k' l)) = waiters (semaphore (lock_tab k l)) \<and>
           priority_lock (lock_tab k' l) = priority_lock (lock_tab k l) \<and>
           locks (threads k' (cur k')) = locks (threads k (cur k))
         else k' = k))"
  by (auto simp: lock_try_acquire_def sema_try_down_def Let_def word_greater_zero_iff
      split: prod.splits)

theorem lock_try_acquire_frame_witness:
  "\<not> lock_held_by_current_thread 1 (lock_init (- 1) 1 boot) \<and>
   (\<exists>k'. lock_try_acquire 1 (lock_init (- 1) 1 boot) = Inr (True, k') \<and>
      holder (lock_tab k' 1) = Some 0 \<and> sema_value (semaphore (lock_tab k' 1)) = 0 \<and>
      locks (threads k' 0) = [] \<and> priority_lock (lock_tab k' 1) = - 1)"
  using lock_try_acquire_frame [of 1 "lock_init (- 1) 1 boot"]
  by (auto simp: lock_held_by_current_thread_def lock_init_def boot_def sema_init_def
      new_thread_def split: sum.splits prod.splits if_splits)

end
